theory Spec2Isabelle
  imports Main "HOL-Library.Word"
begin

section \<open>The Simon game sketch (SimonGame\_V1\_4.ino)\<close>

text \<open>
  The sketch is a five-state game loop over a handful of global variables. The
  embedding keeps the globals in one record, threads it through every routine, and
  makes the hardware explicit:
  \<^item> time is a count of milliseconds since boot (\<open>clock\<close>); \<open>millis()\<close> is that count
    read as an \<open>unsigned long\<close>, a 32-bit word on the AVR; only \<open>delay\<close> and the time
    between two iterations of \<open>loop\<close> let it advance;
  \<^item> the buttons are a signal over time, \<open>pinLow hw t pin\<close>, true when
    \<open>digitalRead(pin)\<close> is \<open>LOW\<close> at time \<open>t\<close>;
  \<^item> the random generator is a stream of raw values, \<open>rawRandom hw k\<close> being the value
    behind the \<open>k\<close>-th call;
  \<^item> what the sketch writes (LEDs, buzzer) is appended to a time-stamped \<open>trace\<close>;
  \<^item> an array access out of range is the error \<open>OutOfBounds\<close>, and a busy-wait that never
    ends is the error \<open>NeverReturns\<close>.
\<close>

subsection \<open>Constants and globals\<close>

definition BUTTON_PINS :: "int list" where
  "BUTTON_PINS = [10, 9, 8, 7]"

definition LED_PINS :: "int list" where
  "LED_PINS = [3, 4, 5, 6]"

definition BUZZER_PIN :: int where
  "BUZZER_PIN = 11"

definition TONES :: "int list" where
  "TONES = [310, 209, 415, 252]"

definition MAX_SEQUENCE :: int where
  "MAX_SEQUENCE = 100"

datatype GameState = WELCOME | WAIT_FOR_START | PLAY_SEQUENCE | USER_INPUT | GAME_OVER

definition debounceDelay :: "32 word" where
  "debounceDelay = 200"

datatype error = OutOfBounds | NeverReturns

datatype event =
    DigitalWrite int bool
  | Tone int int nat
  | NoTone int

record hw =
  pinLow :: "nat \<Rightarrow> int \<Rightarrow> bool"
  rawRandom :: "nat \<Rightarrow> nat"

record game =
  sequence :: "int list"
  sequenceLength :: int
  userInputIndex :: int
  gameState :: GameState
  lastButtonPress :: "32 word"
  previousMillis :: "32 word"
  ledState :: bool
  clock :: nat
  draws :: nat
  trace :: "(nat \<times> event) list"

text \<open>
  The globals as the C start-up code leaves them, at the first call of \<open>loop\<close>; \<open>setup\<close>
  only configures the pins. The \<open>int\<close> variables of the sketch hold values between -1 and
  415 only, so they are modelled by \<open>int\<close>; the two time stamps are \<open>unsigned long\<close>.
\<close>

definition boot :: game where
  "boot = \<lparr> sequence = replicate 100 0, sequenceLength = 0, userInputIndex = 0,
            gameState = WELCOME, lastButtonPress = 0, previousMillis = 0,
            ledState = False, clock = 0, draws = 0, trace = [] \<rparr>"

subsection \<open>The Arduino primitives\<close>

definition millis :: "game \<Rightarrow> 32 word" where
  "millis s = word_of_nat (clock s)"

definition delay :: "nat \<Rightarrow> game \<Rightarrow> game" where
  "delay ms s = s\<lparr>clock := clock s + ms\<rparr>"

definition emit :: "event \<Rightarrow> game \<Rightarrow> game" where
  "emit e s = s\<lparr>trace := trace s @ [(clock s, e)]\<rparr>"

definition digitalWrite :: "int \<Rightarrow> bool \<Rightarrow> game \<Rightarrow> game" where
  "digitalWrite pin v s = emit (DigitalWrite pin v) s"

definition tone :: "int \<Rightarrow> int \<Rightarrow> nat \<Rightarrow> game \<Rightarrow> game" where
  "tone pin freq duration s = emit (Tone pin freq duration) s"

definition noTone :: "int \<Rightarrow> game \<Rightarrow> game" where
  "noTone pin s = emit (NoTone pin) s"

text \<open>
  \<open>random(howsmall, howbig)\<close> of the Arduino core, which is not part of the sketch:
  its contract is a value from \<open>howsmall\<close> up to \<open>howbig - 1\<close>, obtained from the raw
  generator by a remainder.
\<close>

definition arduino_random :: "hw \<Rightarrow> nat \<Rightarrow> int \<Rightarrow> int \<Rightarrow> int" where
  "arduino_random h k howsmall howbig = howsmall + int (rawRandom h k) mod (howbig - howsmall)"

definition arrayRead :: "'a list \<Rightarrow> int \<Rightarrow> error + 'a" where
  "arrayRead a i = (if 0 \<le> i \<and> i < int (length a) then Inr (a ! nat i) else Inl OutOfBounds)"

definition arrayWrite :: "'a list \<Rightarrow> int \<Rightarrow> 'a \<Rightarrow> error + 'a list" where
  "arrayWrite a i v =
     (if 0 \<le> i \<and> i < int (length a) then Inr (a[nat i := v]) else Inl OutOfBounds)"

text \<open>
  \<open>while (digitalRead(pin) == LOW) { delay(10); }\<close>: the time at which the loop
  ends, when it does.
\<close>

partial_function (option) waitRelease :: "hw \<Rightarrow> int \<Rightarrow> nat \<Rightarrow> nat option" where
  "waitRelease h pin t = (if pinLow h t pin then waitRelease h pin (t + 10) else Some t)"

declare waitRelease.simps [code]

subsection \<open>addToSequence\<close>

text \<open>
  The \<open>do ... while\<close> of \<open>addToSequence\<close>: the colour kept and the number of draws made
  so far, when the loop ends.
\<close>

partial_function (option) drawColor :: "hw \<Rightarrow> int \<Rightarrow> nat \<Rightarrow> (int \<times> nat) option" where
  "drawColor h len k =
     (if len = 0 \<and> arduino_random h k 0 4 = 2 then drawColor h len (Suc k)
      else Some (arduino_random h k 0 4, Suc k))"

declare drawColor.simps [code]

definition addToSequence :: "hw \<Rightarrow> game \<Rightarrow> error + game" where
  "addToSequence h s =
     (if sequenceLength s < MAX_SEQUENCE then
        (case drawColor h (sequenceLength s) (draws s) of
           None \<Rightarrow> Inl NeverReturns
         | Some (newColor, k) \<Rightarrow>
             (case arrayWrite (sequence s) (sequenceLength s) newColor of
                Inl e \<Rightarrow> Inl e
              | Inr a \<Rightarrow> Inr (s\<lparr>sequence := a, sequenceLength := sequenceLength s + 1,
                                 draws := k\<rparr>)))
      else Inr s)"

subsection \<open>playColor and playSequence\<close>

definition playColor :: "int \<Rightarrow> game \<Rightarrow> error + game" where
  "playColor index s =
     (case arrayRead LED_PINS index of
        Inl e \<Rightarrow> Inl e
      | Inr led \<Rightarrow>
          (case arrayRead TONES index of
             Inl e \<Rightarrow> Inl e
           | Inr freq \<Rightarrow>
               Inr (digitalWrite led False
                     (delay 500 (tone BUZZER_PIN freq 500 (digitalWrite led True s))))))"

function playSequenceFrom :: "int \<Rightarrow> game \<Rightarrow> error + game" where
  "playSequenceFrom i s =
     (if i < sequenceLength s then
        (case arrayRead (sequence s) i of
           Inl e \<Rightarrow> Inl e
         | Inr c \<Rightarrow>
             (case playColor c s of
                Inl e \<Rightarrow> Inl e
              | Inr s1 \<Rightarrow> playSequenceFrom (i + 1) (delay 300 s1)))
      else Inr s)"
  by pat_completeness auto
termination
  by (relation "measure (\<lambda>(i, s). nat (sequenceLength s - i))")
     (auto simp: playColor_def digitalWrite_def tone_def delay_def emit_def
           split: sum.splits)

declare playSequenceFrom.simps [simp del]

definition playSequence :: "game \<Rightarrow> error + game" where
  "playSequence s = playSequenceFrom 0 s"

subsection \<open>readButton\<close>

text \<open>The \<open>for\<close> loop of \<open>readButton\<close> over the button indices still to be checked.\<close>

fun readButtonScan :: "hw \<Rightarrow> nat list \<Rightarrow> game \<Rightarrow> error + (int \<times> game)" where
  "readButtonScan h [] s = Inr (- 1, s)"
| "readButtonScan h (i # is) s =
     (if pinLow h (clock s) (BUTTON_PINS ! i) then
        (case waitRelease h (BUTTON_PINS ! i) (clock s) of
           None \<Rightarrow> Inl NeverReturns
         | Some t \<Rightarrow> Inr (int i, s\<lparr>lastButtonPress := millis s, clock := t\<rparr>))
      else readButtonScan h is s)"

definition readButton :: "hw \<Rightarrow> game \<Rightarrow> error + (int \<times> game)" where
  "readButton h s =
     (if millis s - lastButtonPress s < debounceDelay then Inr (- 1, s)
      else readButtonScan h [0, 1, 2, 3] s)"

subsection \<open>The animations\<close>

text \<open>
  \<open>allLeds\<close> is the inner \<open>for\<close> loop that writes the four LED pins; \<open>gameOverFlash\<close>,
  \<open>cascadeStep\<close> and \<open>syncFlash\<close> are the bodies of the loops of \<open>gameOver\<close> and
  \<open>welcomeSequence\<close>, which run a fixed number of times.
\<close>

definition allLeds :: "bool \<Rightarrow> game \<Rightarrow> game" where
  "allLeds v s = foldl (\<lambda>s' j. digitalWrite (LED_PINS ! j) v s') s [0, 1, 2, 3]"

definition gameOverFlash :: "game \<Rightarrow> game" where
  "gameOverFlash s =
     delay 200 (allLeds False (noTone BUZZER_PIN
       (delay 200 (allLeds True (tone BUZZER_PIN 100 200 s)))))"

definition gameOver :: "game \<Rightarrow> game" where
  "gameOver s = delay 1000 (foldl (\<lambda>s' i. gameOverFlash s') (delay 300 s) [0, 1, 2 :: nat])"

definition cascadeStep :: "game \<Rightarrow> nat \<Rightarrow> game" where
  "cascadeStep s i =
     delay 100 (noTone BUZZER_PIN (digitalWrite (LED_PINS ! i) False
       (delay 150 (tone BUZZER_PIN (TONES ! i) 150 (digitalWrite (LED_PINS ! i) True s)))))"

definition cascade :: "game \<Rightarrow> game" where
  "cascade s = foldl cascadeStep s [0, 1, 2, 3]"

definition syncFlash :: "game \<Rightarrow> game" where
  "syncFlash s =
     delay 150 (allLeds False (noTone BUZZER_PIN
       (delay 150 (tone BUZZER_PIN 400 150 (allLeds True s)))))"

definition welcomeSequence :: "game \<Rightarrow> game" where
  "welcomeSequence s =
     foldl (\<lambda>s' repeat. syncFlash s')
       (foldl (\<lambda>s' repeat. cascade s') s [0, 1 :: nat]) [0, 1, 2, 3 :: nat]"

subsection \<open>waitForStartButton\<close>

text \<open>
  The two \<open>static\<close> locals are the fields \<open>previousMillis\<close> and \<open>ledState\<close>. \<open>blink\<close>
  is the periodic toggle at the head of the function.
\<close>

definition blink :: "game \<Rightarrow> game" where
  "blink s =
     (if millis s - previousMillis s \<ge> 300 then
        digitalWrite (LED_PINS ! 2) (\<not> ledState s)
          (s\<lparr>previousMillis := millis s, ledState := \<not> ledState s\<rparr>)
      else s)"

definition waitForStartButton :: "hw \<Rightarrow> game \<Rightarrow> error + (bool \<times> game)" where
  "waitForStartButton h s =
     (let s1 = blink s in
      if pinLow h (clock s1) (BUTTON_PINS ! 2) then
        (case waitRelease h (BUTTON_PINS ! 2) (clock s1) of
           None \<Rightarrow> Inl NeverReturns
         | Some t \<Rightarrow> Inr (True, s1\<lparr>clock := t\<rparr>))
      else Inr (False, s1))"

subsection \<open>loop\<close>

text \<open>
  \<open>handleInput\<close> is the body of the \<open>USER_INPUT\<close> case once \<open>readButton\<close> has returned a
  button index: the feedback, the comparison with the sequence at the cursor, and the move
  of the cursor.
\<close>

definition handleInput :: "int \<Rightarrow> game \<Rightarrow> error + game" where
  "handleInput input s =
     (case playColor input s of
        Inl e \<Rightarrow> Inl e
      | Inr s1 \<Rightarrow>
          (case arrayRead (sequence s1) (userInputIndex s1) of
             Inl e \<Rightarrow> Inl e
           | Inr expected \<Rightarrow>
               if input \<noteq> expected then Inr (s1\<lparr>gameState := GAME_OVER\<rparr>)
               else
                 (let s2 = s1\<lparr>userInputIndex := userInputIndex s1 + 1\<rparr> in
                  if userInputIndex s2 \<ge> sequenceLength s2
                  then Inr ((delay 1000 s2)\<lparr>gameState := PLAY_SEQUENCE\<rparr>)
                  else Inr s2)))"

definition loop :: "hw \<Rightarrow> game \<Rightarrow> error + game" where
  "loop h s =
     (case gameState s of
        WELCOME \<Rightarrow> Inr ((welcomeSequence s)\<lparr>gameState := WAIT_FOR_START\<rparr>)
      | WAIT_FOR_START \<Rightarrow>
          (case waitForStartButton h s of
             Inl e \<Rightarrow> Inl e
           | Inr (started, s1) \<Rightarrow>
               if started then
                 Inr ((delay 500 (digitalWrite (LED_PINS ! 2) False
                        (s1\<lparr>sequenceLength := 0\<rparr>)))\<lparr>gameState := PLAY_SEQUENCE\<rparr>)
               else Inr s1)
      | PLAY_SEQUENCE \<Rightarrow>
          (case addToSequence h s of
             Inl e \<Rightarrow> Inl e
           | Inr s1 \<Rightarrow>
               (case playSequence s1 of
                  Inl e \<Rightarrow> Inl e
                | Inr s2 \<Rightarrow>
                    Inr (s2\<lparr>userInputIndex := 0, lastButtonPress := millis s2,
                            gameState := USER_INPUT\<rparr>)))
      | USER_INPUT \<Rightarrow>
          (case readButton h s of
             Inl e \<Rightarrow> Inl e
           | Inr (input, s1) \<Rightarrow>
               if input \<noteq> - 1 then handleInput input s1 else Inr s1)
      | GAME_OVER \<Rightarrow> Inr ((gameOver s)\<lparr>gameState := WAIT_FOR_START\<rparr>))"

text \<open>One iteration of \<open>loop\<close>, entered \<open>gap\<close> milliseconds after the last one returned.\<close>

definition tick :: "hw \<Rightarrow> nat \<Rightarrow> game \<Rightarrow> error + game" where
  "tick h gap s = loop h (s\<lparr>clock := clock s + gap\<rparr>)"

subsection \<open>Runs of the loop\<close>

fun run :: "hw \<Rightarrow> nat list \<Rightarrow> game \<Rightarrow> error + game" where
  "run h [] s = Inr s"
| "run h (gap # gaps) s =
     (case tick h gap s of Inl e \<Rightarrow> Inl e | Inr s' \<Rightarrow> run h gaps s')"

inductive reachable :: "game \<Rightarrow> bool" where
  boot: "reachable boot"
| tick: "reachable s \<Longrightarrow> tick h gap s = Inr s' \<Longrightarrow> reachable s'"

text \<open>
  The input that an iteration of \<open>loop\<close> entered after \<open>gap\<close> milliseconds accepts from
  \<open>readButton\<close>, as a list of length at most one.
\<close>

definition accepted :: "hw \<Rightarrow> nat \<Rightarrow> game \<Rightarrow> int list" where
  "accepted h gap s =
     (case readButton h (s\<lparr>clock := clock s + gap\<rparr>) of
        Inl e \<Rightarrow> []
      | Inr (input, s1) \<Rightarrow> if input \<noteq> - 1 then [input] else [])"

text \<open>
  One stay in \<open>USER_INPUT\<close>: the loop is iterated for as long as the state is
  \<open>USER_INPUT\<close> (and gaps remain); the result is the inputs accepted on the way, in
  order, and the state in which the stay ended.
\<close>

fun userInputRun :: "hw \<Rightarrow> nat list \<Rightarrow> game \<Rightarrow> error + (int list \<times> game)" where
  "userInputRun h [] s = Inr ([], s)"
| "userInputRun h (gap # gaps) s =
     (if gameState s \<noteq> USER_INPUT then Inr ([], s)
      else
        (case tick h gap s of
           Inl e \<Rightarrow> Inl e
         | Inr s1 \<Rightarrow>
             (case userInputRun h gaps s1 of
                Inl e \<Rightarrow> Inl e
              | Inr (xs, s2) \<Rightarrow> Inr (accepted h gap s @ xs, s2))))"

text \<open>What the globals satisfy between two iterations of \<open>loop\<close>.\<close>

definition inv :: "game \<Rightarrow> bool" where
  "inv s \<longleftrightarrow>
     length (sequence s) = 100 \<and> 0 \<le> sequenceLength s \<and> sequenceLength s \<le> MAX_SEQUENCE \<and>
     list_all (\<lambda>c. 0 \<le> c \<and> c < 4) (take (nat (sequenceLength s)) (sequence s)) \<and>
     (gameState s = USER_INPUT \<longrightarrow>
        0 \<le> userInputIndex s \<and> userInputIndex s < sequenceLength s)"

text \<open>The three events of \<open>playColor\<close> for colour \<open>c\<close>, started at time \<open>t\<close>.\<close>

definition colorEvents :: "int \<Rightarrow> nat \<Rightarrow> (nat \<times> event) list" where
  "colorEvents c t =
     [(t, DigitalWrite (LED_PINS ! nat c) True),
      (t, Tone BUZZER_PIN (TONES ! nat c) 500),
      (t + 500, DigitalWrite (LED_PINS ! nat c) False)]"

text \<open>The events of a playback of the colours \<open>cs\<close> started at time \<open>t\<close>.\<close>

fun playbackEvents :: "int list \<Rightarrow> nat \<Rightarrow> (nat \<times> event) list" where
  "playbackEvents [] t = []"
| "playbackEvents (c # cs) t = colorEvents c t @ playbackEvents cs (t + 800)"

fun ledOrBuzzer :: "event \<Rightarrow> bool" where
  "ledOrBuzzer (DigitalWrite pin v) = (pin \<in> set LED_PINS)"
| "ledOrBuzzer (Tone pin freq duration) = (pin = BUZZER_PIN)"
| "ledOrBuzzer (NoTone pin) = (pin = BUZZER_PIN)"

fun writesPin :: "int \<Rightarrow> nat \<times> event \<Rightarrow> bool" where
  "writesPin pin (t, DigitalWrite p v) = (p = pin)"
| "writesPin pin (t, e) = False"

text \<open>The number of writes to the start LED from state \<open>s\<close> to the later state \<open>s'\<close>.\<close>

definition toggles :: "game \<Rightarrow> game \<Rightarrow> nat" where
  "toggles s s' =
     length (filter (writesPin (LED_PINS ! 2)) (drop (length (trace s)) (trace s')))"

subsection \<open>Concrete hardware and states\<close>

text \<open>
  \<open>idleHw\<close>: nobody touches a button. \<open>demoHw\<close>: the start button is held from 4000 ms
  for 35 ms, the second button from 6000 ms for 100 ms; the raw generator gives 2, 5, 8, ...
\<close>

definition idleHw :: hw where
  "idleHw = \<lparr> pinLow = (\<lambda>t pin. False), rawRandom = (\<lambda>k. 0) \<rparr>"

definition demoHw :: hw where
  "demoHw = \<lparr> pinLow = (\<lambda>t pin. pin = 8 \<and> 4000 \<le> t \<and> t < 4035 \<or>
                                   pin = 9 \<and> 6000 \<le> t \<and> t < 6100),
              rawRandom = (\<lambda>k. 2 + 3 * k) \<rparr>"

definition afterFirst :: game where
  "afterFirst = boot\<lparr>sequence := (replicate 100 0)[0 := 1], sequenceLength := 1, draws := 2\<rparr>"

definition capState :: game where
  "capState = boot\<lparr>sequence := replicate 100 1, sequenceLength := 100, gameState := PLAY_SEQUENCE,
                   clock := 5000, draws := 100\<rparr>"

text \<open>
  \<open>polling\<close>: a state in \<open>USER_INPUT\<close>, 100 ms after the playback ended. \<open>pressHw\<close>: the
  second button is held from 5400 ms to 5625 ms.
\<close>

definition polling :: game where
  "polling = afterFirst\<lparr>gameState := USER_INPUT, lastButtonPress := 5350, clock := 5450\<rparr>"

definition pressHw :: hw where
  "pressHw = \<lparr> pinLow = (\<lambda>t pin. pin = 9 \<and> 5400 \<le> t \<and> t < 5625), rawRandom = (\<lambda>k. 0) \<rparr>"

text \<open>
  \<open>waiting\<close>: a state in \<open>WAIT_FOR_START\<close> at 4000 ms, with a debounce stamp taken 100 ms
  before.
\<close>

definition waiting :: game where
  "waiting = boot\<lparr>gameState := WAIT_FOR_START, lastButtonPress := 3900, previousMillis := 3900,
                  clock := 4000\<rparr>"

text \<open>
  The game under \<open>demoHw\<close>: \<open>demoStarted\<close> is the state after the welcome animation and the
  press of the start button, \<open>demoListening\<close> the state after the first playback.
\<close>

definition demoStarted :: game where
  "demoStarted = projr (run demoHw [0, 800] boot)"

definition demoListening :: game where
  "demoListening = projr (run demoHw [0, 800, 10] boot)"

text \<open>
  \<open>lost\<close>: a state in \<open>GAME_OVER\<close> with a sequence of length 1; \<open>lostWaiting\<close>: the state
  after its animation. \<open>restartHw\<close>: the start button is held from 9500 ms for 20 ms.
\<close>

definition lost :: game where
  "lost = afterFirst\<lparr>gameState := GAME_OVER, clock := 7000\<rparr>"

definition lostWaiting :: game where
  "lostWaiting = projr (tick idleHw 0 lost)"

definition restartHw :: hw where
  "restartHw = \<lparr> pinLow = (\<lambda>t pin. pin = 8 \<and> 9500 \<le> t \<and> t < 9520), rawRandom = (\<lambda>k. 0) \<rparr>"

text \<open>
  \<open>twoState\<close>: a state in \<open>USER_INPUT\<close> with the sequence 1, 3. \<open>slipHw\<close>: button 1 is held
  from 5300 ms to 5400 ms, button 0 from 6200 ms to 6300 ms, button 3 from 7000 ms to
  7100 ms.
\<close>

definition twoState :: game where
  "twoState = boot\<lparr>sequence := [1, 3] @ replicate 98 0, sequenceLength := 2,
                   gameState := USER_INPUT, lastButtonPress := 5000, clock := 5000, draws := 3\<rparr>"

definition slipHw :: hw where
  "slipHw = \<lparr> pinLow = (\<lambda>t pin. pin = 9 \<and> 5300 \<le> t \<and> t < 5400 \<or>
                                   pin = 10 \<and> 6200 \<le> t \<and> t < 6300 \<or>
                                   pin = 7 \<and> 7000 \<le> t \<and> t < 7100),
              rawRandom = (\<lambda>k. 0) \<rparr>"

definition slipped :: game where
  "slipped = twoState\<lparr>userInputIndex := 1, gameState := GAME_OVER, lastButtonPress := 6200,
                       clock := 6800,
                       trace := [(5400, DigitalWrite 4 True), (5400, Tone 11 209 500),
                                 (5900, DigitalWrite 4 False), (6300, DigitalWrite 3 True),
                                 (6300, Tone 11 310 500), (6800, DigitalWrite 3 False)]\<rparr>"

text \<open>
  \<open>capListening\<close>: the state after the playback of the full sequence of \<open>capState\<close>.
\<close>

definition capListening :: game where
  "capListening = capState\<lparr>trace := playbackEvents (replicate 100 1) 5000, clock := 85000,
                            userInputIndex := 0, lastButtonPress := 85000,
                            gameState := USER_INPUT\<rparr>"

text \<open>
  The milliseconds that the counter shows since the stored last-toggle timestamp.
\<close>

definition sinceToggle :: "game \<Rightarrow> nat" where
  "sinceToggle s = unat (millis s - previousMillis s)"

text \<open>
  Hardware on which every button is released at some later poll and the generator gives a
  value other than 2 at some later draw.
\<close>

definition fair :: "hw \<Rightarrow> bool" where
  "fair h \<longleftrightarrow> (\<forall>pin t. \<exists>n. \<not> pinLow h (t + 10 * n) pin) \<and>
            (\<forall>k. \<exists>n. arduino_random h (k + n) 0 4 \<noteq> 2)"



text \<open>
  \<open>secondRound\<close>: a state in \<open>PLAY_SEQUENCE\<close> after a first round, with the sequence 1.
  \<open>roundHw\<close>: the next draw gives 3; button 1 is held from 9500 ms to 9600 ms, button 3
  from 10500 ms to 10600 ms. \<open>roundListening\<close>, \<open>roundHalf\<close> and \<open>roundDone\<close> are the states
  after the playback, after the first input and after the second.
\<close>

definition secondRound :: game where
  "secondRound = afterFirst\<lparr>gameState := PLAY_SEQUENCE, userInputIndex := 1, clock := 7600\<rparr>"

definition roundHw :: hw where
  "roundHw = \<lparr> pinLow = (\<lambda>t pin. pin = 9 \<and> 9500 \<le> t \<and> t < 9600 \<or>
                                    pin = 7 \<and> 10500 \<le> t \<and> t < 10600),
               rawRandom = (\<lambda>k. 3) \<rparr>"

definition roundListening :: game where
  "roundListening = secondRound\<lparr>sequence := (sequence secondRound)[1 := 3], sequenceLength := 2,
       draws := 3, userInputIndex := 0, lastButtonPress := 9200, clock := 9200,
       gameState := USER_INPUT,
       trace := [(7600, DigitalWrite 4 True), (7600, Tone 11 209 500), (8100, DigitalWrite 4 False),
                 (8400, DigitalWrite 6 True), (8400, Tone 11 252 500), (8900, DigitalWrite 6 False)]\<rparr>"

definition roundHalf :: game where
  "roundHalf = roundListening\<lparr>userInputIndex := 1, lastButtonPress := 9500, clock := 10100,
       trace := trace roundListening @
         [(9600, DigitalWrite 4 True), (9600, Tone 11 209 500), (10100, DigitalWrite 4 False)]\<rparr>"

definition roundDone :: game where
  "roundDone = roundHalf\<lparr>userInputIndex := 2, lastButtonPress := 10500, clock := 12100,
       gameState := PLAY_SEQUENCE,
       trace := trace roundHalf @
         [(10600, DigitalWrite 6 True), (10600, Tone 11 252 500), (11100, DigitalWrite 6 False)]\<rparr>"

section \<open>Properties of the routines\<close>

subsection \<open>The busy-wait and the redraw loop\<close>

lemma waitRelease_polls:
  assumes "waitRelease h pin t = Some t'"
  shows "\<not> pinLow h t' pin \<and> (\<exists>n. t' = t + 10 * n \<and> (\<forall>j<n. pinLow h (t + 10 * j) pin))"
proof (rule waitRelease.raw_induct
    [where P = "\<lambda>h pin t t'. \<not> pinLow h t' pin \<and>
                  (\<exists>n. t' = t + 10 * n \<and> (\<forall>j<n. pinLow h (t + 10 * j) pin))", OF _ assms])
  fix wr :: "hw \<Rightarrow> int \<Rightarrow> nat \<Rightarrow> nat option" and h pin t t'
  assume IH: "\<And>h pin t t'. wr h pin t = Some t' \<Longrightarrow>
      \<not> pinLow h t' pin \<and> (\<exists>n. t' = t + 10 * n \<and> (\<forall>j<n. pinLow h (t + 10 * j) pin))"
    and eq: "(if pinLow h t pin then wr h pin (t + 10) else Some t) = Some t'"
  show "\<not> pinLow h t' pin \<and> (\<exists>n. t' = t + 10 * n \<and> (\<forall>j<n. pinLow h (t + 10 * j) pin))"
  proof (cases "pinLow h t pin")
    case True
    with eq have "wr h pin (t + 10) = Some t'" by simp
    from IH[OF this] obtain n where
      n: "\<not> pinLow h t' pin" "t' = t + 10 + 10 * n" "\<forall>j<n. pinLow h (t + 10 + 10 * j) pin"
      by auto
    have "\<forall>j<Suc n. pinLow h (t + 10 * j) pin"
    proof (intro allI impI)
      fix j assume "j < Suc n"
      show "pinLow h (t + 10 * j) pin"
      proof (cases j)
        case 0 then show ?thesis using True by simp
      next
        case (Suc i)
        with \<open>j < Suc n\<close> n(3) have "pinLow h (t + 10 + 10 * i) pin" by simp
        then show ?thesis using Suc by (simp add: add.assoc)
      qed
    qed
    moreover have "t' = t + 10 * Suc n" using n(2) by simp
    ultimately show ?thesis using n(1) by blast
  next
    case False
    with eq have "t' = t" by simp
    then show ?thesis using False by (intro conjI exI[of _ 0]) auto
  qed
qed

lemma waitRelease_returns:
  "\<not> pinLow h (t + 10 * n) pin \<Longrightarrow> \<exists>t'. waitRelease h pin t = Some t'"
proof (induction n arbitrary: t)
  case 0
  then show ?case by (subst waitRelease.simps) simp
next
  case (Suc n)
  then have "\<not> pinLow h (t + 10 + 10 * n) pin" by (simp add: add.assoc)
  from Suc.IH[OF this] show ?case by (subst waitRelease.simps) simp
qed

lemma arduino_random_range: "0 \<le> arduino_random h k 0 4 \<and> arduino_random h k 0 4 < 4"
  by (simp add: arduino_random_def)

lemma drawColor_result:
  assumes "drawColor h len k = Some r"
  shows "k < snd r \<and> fst r = arduino_random h (snd r - 1) 0 4 \<and> (len = 0 \<longrightarrow> fst r \<noteq> 2) \<and>
     (\<forall>j. k \<le> j \<and> j < snd r - 1 \<longrightarrow> arduino_random h j 0 4 = 2)"
proof (rule drawColor.raw_induct
    [where P = "\<lambda>h len k r. k < snd r \<and> fst r = arduino_random h (snd r - 1) 0 4 \<and>
       (len = 0 \<longrightarrow> fst r \<noteq> 2) \<and>
       (\<forall>j. k \<le> j \<and> j < snd r - 1 \<longrightarrow> arduino_random h j 0 4 = 2)", OF _ assms])
  fix dc :: "hw \<Rightarrow> int \<Rightarrow> nat \<Rightarrow> (int \<times> nat) option" and h len k r
  assume IH: "\<And>h len k r. dc h len k = Some r \<Longrightarrow>
      k < snd r \<and> fst r = arduino_random h (snd r - 1) 0 4 \<and> (len = 0 \<longrightarrow> fst r \<noteq> 2) \<and>
      (\<forall>j. k \<le> j \<and> j < snd r - 1 \<longrightarrow> arduino_random h j 0 4 = 2)"
    and eq: "(if len = 0 \<and> arduino_random h k 0 4 = 2 then dc h len (Suc k)
              else Some (arduino_random h k 0 4, Suc k)) = Some r"
  show "k < snd r \<and> fst r = arduino_random h (snd r - 1) 0 4 \<and> (len = 0 \<longrightarrow> fst r \<noteq> 2) \<and>
      (\<forall>j. k \<le> j \<and> j < snd r - 1 \<longrightarrow> arduino_random h j 0 4 = 2)"
  proof (cases "len = 0 \<and> arduino_random h k 0 4 = 2")
    case True
    with eq have "dc h len (Suc k) = Some r" by simp
    from IH[OF this] have ih: "Suc k < snd r" "fst r = arduino_random h (snd r - 1) 0 4"
      "len = 0 \<longrightarrow> fst r \<noteq> 2" "\<forall>j. Suc k \<le> j \<and> j < snd r - 1 \<longrightarrow> arduino_random h j 0 4 = 2"
      by blast+
    have "\<forall>j. k \<le> j \<and> j < snd r - 1 \<longrightarrow> arduino_random h j 0 4 = 2"
    proof (intro allI impI)
      fix j assume j: "k \<le> j \<and> j < snd r - 1"
      show "arduino_random h j 0 4 = 2"
      proof (cases "j = k")
        case True then show ?thesis using \<open>len = 0 \<and> arduino_random h k 0 4 = 2\<close> by simp
      next
        case False with j ih(4) show ?thesis by simp
      qed
    qed
    with ih show ?thesis by simp
  next
    case False
    with eq have "r = (arduino_random h k 0 4, Suc k)" by (auto split: if_splits)
    with False show ?thesis by auto
  qed
qed

lemma drawColor_nonempty:
  "len \<noteq> 0 \<Longrightarrow> drawColor h len k = Some (arduino_random h k 0 4, Suc k)"
  by (subst drawColor.simps) simp

lemma drawColor_returns:
  "arduino_random h (k + n) 0 4 \<noteq> 2 \<Longrightarrow> \<exists>r. drawColor h len k = Some r"
proof (induction n arbitrary: k)
  case 0
  then show ?case by (subst drawColor.simps) simp
next
  case (Suc n)
  then have "arduino_random h (Suc k + n) 0 4 \<noteq> 2" by simp
  from Suc.IH[OF this] show ?case by (subst drawColor.simps) auto
qed

subsection \<open>Playback and button reads\<close>

lemmas prim_defs = delay_def emit_def digitalWrite_def tone_def noTone_def

lemma playColor_events:
  "0 \<le> c \<Longrightarrow> c < 4 \<Longrightarrow>
   playColor c s = Inr (s\<lparr>trace := trace s @ colorEvents c (clock s), clock := clock s + 500\<rparr>)"
  by (simp add: playColor_def arrayRead_def LED_PINS_def TONES_def colorEvents_def prim_defs)

lemma playColor_range:
  "playColor c s = Inr s' \<Longrightarrow> 0 \<le> c \<and> c < 4"
  by (auto simp: playColor_def arrayRead_def LED_PINS_def TONES_def split: if_splits sum.splits)

lemma playSequenceFrom_events:
  "0 \<le> i \<Longrightarrow> sequenceLength s \<le> int (length (sequence s)) \<Longrightarrow>
   list_all (\<lambda>c. 0 \<le> c \<and> c < 4) (take (nat (sequenceLength s)) (sequence s)) \<Longrightarrow>
   playSequenceFrom i s =
     Inr (s\<lparr>trace := trace s @
               playbackEvents (drop (nat i) (take (nat (sequenceLength s)) (sequence s))) (clock s),
            clock := clock s + 800 * (nat (sequenceLength s) - nat i)\<rparr>)"
proof (induction i s rule: playSequenceFrom.induct)
  case (1 i s)
  show ?case
  proof (cases "i < sequenceLength s")
    case False
    then have "drop (nat i) (take (nat (sequenceLength s)) (sequence s)) = []" by simp
    moreover have "nat (sequenceLength s) - nat i = 0" using False by simp
    ultimately show ?thesis using False by (subst playSequenceFrom.simps) simp
  next
    case True
    let ?n = "nat (sequenceLength s)"
    let ?c = "sequence s ! nat i"
    have lt: "nat i < ?n" "?n \<le> length (sequence s)" using True 1(2,3) by auto
    have rd: "arrayRead (sequence s) i = Inr ?c" using True 1(2,3) by (simp add: arrayRead_def)
    have "?c \<in> set (take ?n (sequence s))"
      using lt by (metis in_set_conv_nth length_take min.absorb2 nth_take)
    with 1(4) have c: "0 \<le> ?c" "?c < 4" by (auto simp: list_all_iff)
    let ?s1 = "s\<lparr>trace := trace s @ colorEvents ?c (clock s), clock := clock s + 500\<rparr>"
    have pc: "playColor ?c s = Inr ?s1" using c by (rule playColor_events)
    have ih: "playSequenceFrom (i + 1) (delay 300 ?s1) =
        Inr ((delay 300 ?s1)\<lparr>trace := trace (delay 300 ?s1) @
               playbackEvents (drop (nat (i + 1)) (take (nat (sequenceLength (delay 300 ?s1)))
                  (sequence (delay 300 ?s1)))) (clock (delay 300 ?s1)),
            clock := clock (delay 300 ?s1) + 800 * (nat (sequenceLength (delay 300 ?s1)) - nat (i + 1))\<rparr>)"
      using 1(2,3,4) by (intro "1.IH"[OF True rd pc]) (simp_all add: delay_def)
    have dr: "drop (nat i) (take ?n (sequence s)) = ?c # drop (nat (i + 1)) (take ?n (sequence s))"
      using lt 1(2) Cons_nth_drop_Suc[of "nat i" "take ?n (sequence s)", symmetric]
      by (simp add: nat_add_distrib)
    have "nat (i + 1) = Suc (nat i)" using 1(2) by (simp add: nat_add_distrib)
    moreover have "?n - nat i = Suc (?n - Suc (nat i))" using lt by arith
    ultimately have ar: "500 + 300 + 800 * (?n - nat (i + 1)) = 800 * (?n - nat i)"
      by simp
    have "playSequenceFrom i s = playSequenceFrom (i + 1) (delay 300 ?s1)"
      by (subst playSequenceFrom.simps) (simp add: True rd pc)
    also note ih
    also have "Inr ((delay 300 ?s1)\<lparr>trace := trace (delay 300 ?s1) @
               playbackEvents (drop (nat (i + 1)) (take (nat (sequenceLength (delay 300 ?s1)))
                  (sequence (delay 300 ?s1)))) (clock (delay 300 ?s1)),
            clock := clock (delay 300 ?s1) + 800 * (nat (sequenceLength (delay 300 ?s1)) - nat (i + 1))\<rparr>)
       = (Inr (s\<lparr>trace := trace s @
               playbackEvents (drop (nat i) (take (nat (sequenceLength s)) (sequence s))) (clock s),
            clock := clock s + 800 * (nat (sequenceLength s) - nat i)\<rparr>) :: error + game)"
      using ar by (simp add: delay_def dr add.assoc)
    finally show ?thesis .
  qed
qed

lemma readButtonScan_result:
  "readButtonScan h is s = Inr (x, s') \<Longrightarrow>
     (x = - 1 \<and> s' = s \<and> (\<forall>i \<in> set is. \<not> pinLow h (clock s) (BUTTON_PINS ! i))) \<or>
     (\<exists>i \<in> set is. \<exists>t. x = int i \<and> pinLow h (clock s) (BUTTON_PINS ! i) \<and>
        waitRelease h (BUTTON_PINS ! i) (clock s) = Some t \<and>
        s' = s\<lparr>lastButtonPress := millis s, clock := t\<rparr>)"
  by (induction "is") (auto split: if_splits option.splits)

lemma readButton_result:
  assumes "readButton h s = Inr (x, s')"
  shows "(x = - 1 \<and> s' = s) \<or>
     (0 \<le> x \<and> x < 4 \<and> \<not> millis s - lastButtonPress s < debounceDelay \<and>
        pinLow h (clock s) (BUTTON_PINS ! nat x) \<and>
        (\<exists>t. waitRelease h (BUTTON_PINS ! nat x) (clock s) = Some t \<and>
             s' = s\<lparr>lastButtonPress := millis s, clock := t\<rparr>))"
proof (cases "millis s - lastButtonPress s < debounceDelay")
  case True
  with assms show ?thesis by (simp add: readButton_def)
next
  case False
  with assms have "readButtonScan h [0, 1, 2, 3] s = Inr (x, s')" by (simp add: readButton_def)
  from readButtonScan_result[OF this] False show ?thesis by auto
qed

subsection \<open>The invariant\<close>

lemma inv_clock [simp]: "inv (s\<lparr>clock := t\<rparr>) = inv s"
  by (simp add: inv_def)

lemma inv_trace [simp]: "inv (s\<lparr>trace := t\<rparr>) = inv s"
  by (simp add: inv_def)

lemma allLeds_frame:
  "allLeds v s = s\<lparr>trace := trace s @ map (\<lambda>p. (clock s, DigitalWrite p v)) LED_PINS\<rparr>"
  by (simp add: allLeds_def prim_defs LED_PINS_def)

lemma gameOver_frame:
  "gameOver s = s\<lparr>trace := trace (gameOver s), clock := clock s + 2500\<rparr> \<and>
   take (length (trace s)) (trace (gameOver s)) = trace s \<and>
   list_all (\<lambda>(t, e). ledOrBuzzer e) (drop (length (trace s)) (trace (gameOver s)))"
  by (simp add: gameOver_def gameOverFlash_def allLeds_frame prim_defs LED_PINS_def BUZZER_PIN_def)

lemma welcomeSequence_frame:
  "welcomeSequence s = s\<lparr>trace := trace (welcomeSequence s), clock := clock s + 3200\<rparr>"
  by (simp add: welcomeSequence_def cascade_def cascadeStep_def syncFlash_def allLeds_frame
      prim_defs LED_PINS_def BUZZER_PIN_def TONES_def)

lemma gameOver_fields [simp]:
  "sequence (gameOver s) = sequence s" "sequenceLength (gameOver s) = sequenceLength s"
  "userInputIndex (gameOver s) = userInputIndex s" "gameState (gameOver s) = gameState s"
  by (simp_all add: gameOver_def gameOverFlash_def allLeds_frame prim_defs)

lemma welcomeSequence_fields [simp]:
  "sequence (welcomeSequence s) = sequence s"
  "sequenceLength (welcomeSequence s) = sequenceLength s"
  "userInputIndex (welcomeSequence s) = userInputIndex s"
  "gameState (welcomeSequence s) = gameState s"
  by (simp_all add: welcomeSequence_def cascade_def cascadeStep_def syncFlash_def allLeds_frame
      prim_defs)

lemma blink_frame:
  "blink s = s \<or>
   blink s = s\<lparr>previousMillis := millis s, ledState := \<not> ledState s,
               trace := trace s @ [(clock s, DigitalWrite (LED_PINS ! 2) (\<not> ledState s))]\<rparr>"
  by (simp add: blink_def prim_defs)

lemma inv_blink [simp]: "inv (blink s) = inv s"
  using blink_frame[of s] by (auto simp: inv_def)

lemma blink_fields [simp]:
  "sequence (blink s) = sequence s" "sequenceLength (blink s) = sequenceLength s"
  "gameState (blink s) = gameState s" "clock (blink s) = clock s"
  "userInputIndex (blink s) = userInputIndex s" "lastButtonPress (blink s) = lastButtonPress s"
  "draws (blink s) = draws s"
  by (simp_all add: blink_def prim_defs)

lemma waitForStartButton_result:
  assumes "waitForStartButton h s = Inr (started, s')"
  shows "(\<not> started \<and> \<not> pinLow h (clock s) (BUTTON_PINS ! 2) \<and> s' = blink s) \<or>
         (started \<and> pinLow h (clock s) (BUTTON_PINS ! 2) \<and>
          (\<exists>t. waitRelease h (BUTTON_PINS ! 2) (clock s) = Some t \<and>
               s' = (blink s)\<lparr>clock := t\<rparr>))"
  using assms by (auto simp: waitForStartButton_def Let_def split: if_splits option.splits)

lemma addToSequence_cap:
  "MAX_SEQUENCE \<le> sequenceLength s \<Longrightarrow> addToSequence h s = Inr s"
  by (simp add: addToSequence_def)

lemma addToSequence_grow:
  assumes "addToSequence h s = Inr s'" "sequenceLength s < MAX_SEQUENCE"
  shows "\<exists>c k. drawColor h (sequenceLength s) (draws s) = Some (c, k) \<and>
           0 \<le> sequenceLength s \<and> sequenceLength s < int (length (sequence s)) \<and>
           s' = s\<lparr>sequence := (sequence s)[nat (sequenceLength s) := c],
                  sequenceLength := sequenceLength s + 1, draws := k\<rparr>"
  using assms
  by (auto simp: addToSequence_def arrayWrite_def split: option.splits sum.splits if_splits)

lemma inv_addToSequence:
  assumes "inv s" "addToSequence h s = Inr s'" "gameState s \<noteq> USER_INPUT"
  shows "inv s' \<and> 0 < sequenceLength s' \<and> gameState s' = gameState s"
proof (cases "sequenceLength s < MAX_SEQUENCE")
  case False
  with assms have "s' = s" "sequenceLength s = MAX_SEQUENCE"
    by (auto simp: addToSequence_cap inv_def)
  with assms show ?thesis by (simp add: MAX_SEQUENCE_def)
next
  case True
  from addToSequence_grow[OF assms(2) True] obtain c k where
    d: "drawColor h (sequenceLength s) (draws s) = Some (c, k)" and
    s': "s' = s\<lparr>sequence := (sequence s)[nat (sequenceLength s) := c],
                  sequenceLength := sequenceLength s + 1, draws := k\<rparr>"
    by blast
  from drawColor_result[OF d] have "c = arduino_random h (k - 1) 0 4" by simp
  with arduino_random_range have c: "0 \<le> c" "c < 4" by auto
  let ?n = "nat (sequenceLength s)"
  have n: "?n < length (sequence s)" "0 \<le> sequenceLength s"
    using assms(1) True by (auto simp: inv_def MAX_SEQUENCE_def)
  have "take (nat (sequenceLength s + 1)) ((sequence s)[?n := c]) = take ?n (sequence s) @ [c]"
    using n by (simp add: nat_add_distrib take_Suc_conv_app_nth)
  with assms(1,3) c n True show ?thesis
    by (simp add: s' inv_def MAX_SEQUENCE_def)
qed

lemma playSequence_result:
  assumes "inv s"
  shows "playSequence s =
     Inr (s\<lparr>trace := trace s @
               playbackEvents (take (nat (sequenceLength s)) (sequence s)) (clock s),
            clock := clock s + 800 * nat (sequenceLength s)\<rparr>)"
  using assms playSequenceFrom_events[of 0 s]
  by (simp add: playSequence_def inv_def MAX_SEQUENCE_def)

lemma handleInput_result:
  assumes "inv s" "gameState s = USER_INPUT" "0 \<le> x" "x < 4"
  shows "handleInput x s =
     Inr (let s1 = s\<lparr>trace := trace s @ colorEvents x (clock s), clock := clock s + 500\<rparr> in
          if x \<noteq> sequence s ! nat (userInputIndex s) then s1\<lparr>gameState := GAME_OVER\<rparr>
          else if sequenceLength s \<le> userInputIndex s + 1
          then s1\<lparr>userInputIndex := userInputIndex s + 1, clock := clock s + 1500,
                   gameState := PLAY_SEQUENCE\<rparr>
          else s1\<lparr>userInputIndex := userInputIndex s + 1\<rparr>)"
  using assms
  by (simp add: handleInput_def playColor_events arrayRead_def inv_def MAX_SEQUENCE_def
      Let_def delay_def)

lemma inv_loop:
  assumes "inv s" "loop h s = Inr s'"
  shows "inv s'"
proof (cases "gameState s")
  case WELCOME
  with assms have "s' = (welcomeSequence s)\<lparr>gameState := WAIT_FOR_START\<rparr>"
    by (simp add: loop_def)
  with assms(1) WELCOME show ?thesis
    by (simp add: inv_def)
next
  case WAIT_FOR_START
  with assms(2) obtain started s1 where
    w: "waitForStartButton h s = Inr (started, s1)" and
    s': "s' = (if started then (delay 500 (digitalWrite (LED_PINS ! 2) False
                 (s1\<lparr>sequenceLength := 0\<rparr>)))\<lparr>gameState := PLAY_SEQUENCE\<rparr> else s1)"
    by (auto simp: loop_def split: sum.splits if_splits)
  from waitForStartButton_result[OF w] assms(1) have "inv s1" "gameState s1 = WAIT_FOR_START"
    using WAIT_FOR_START by auto
  then show ?thesis by (auto simp: s' inv_def prim_defs MAX_SEQUENCE_def)
next
  case PLAY_SEQUENCE
  with assms(2) obtain s1 s2 where
    a: "addToSequence h s = Inr s1" and p: "playSequence s1 = Inr s2" and
    s': "s' = s2\<lparr>userInputIndex := 0, lastButtonPress := millis s2, gameState := USER_INPUT\<rparr>"
    by (auto simp: loop_def split: sum.splits)
  from inv_addToSequence[OF assms(1) a] PLAY_SEQUENCE have i1: "inv s1" "0 < sequenceLength s1"
    by auto
  from p playSequence_result[OF i1(1)] i1 show ?thesis by (auto simp: s' inv_def)
next
  case USER_INPUT
  with assms(2) obtain x s1 where
    r: "readButton h s = Inr (x, s1)" and
    s': "Inr s' = (if x \<noteq> - 1 then handleInput x s1 else Inr s1)"
    by (auto simp: loop_def split: sum.splits prod.splits)
  from readButton_result[OF r] assms(1) USER_INPUT
  have s1: "inv s1" "gameState s1 = USER_INPUT" "x = - 1 \<or> 0 \<le> x \<and> x < 4"
    by (auto simp: inv_def)
  show ?thesis
  proof (cases "x = - 1")
    case True with s' s1 show ?thesis by simp
  next
    case False
    with s1 have x: "0 \<le> x" "x < 4" by auto
    from s' False handleInput_result[OF s1(1,2) x] s1(1,2) show ?thesis
      by (auto simp: Let_def inv_def split: if_splits)
  qed
next
  case GAME_OVER
  with assms have "s' = (gameOver s)\<lparr>gameState := WAIT_FOR_START\<rparr>"
    by (simp add: loop_def)
  with assms(1) GAME_OVER show ?thesis
    by (simp add: inv_def)
qed

lemma inv_tick: "inv s \<Longrightarrow> tick h gap s = Inr s' \<Longrightarrow> inv s'"
  using inv_loop[of "s\<lparr>clock := clock s + gap\<rparr>" h s'] by (simp add: tick_def)

lemma inv_boot: "inv boot"
  by (simp add: inv_def boot_def MAX_SEQUENCE_def)

lemma reachable_inv: "reachable s \<Longrightarrow> inv s"
  by (induction rule: reachable.induct) (auto intro: inv_boot inv_tick)

subsection \<open>The loop returns\<close>

text \<open>
  An iteration of \<open>loop\<close> can fail to return in two places only: the wait for a release, when
  the button is held for ever, and the redraw of the first colour, when the generator gives
  2 for ever. On hardware where every button is released at some later poll and the
  generator gives another value at some later draw, every iteration from a state that
  satisfies the invariant returns, and so does every run.
\<close>

lemma readButtonScan_returns:
  "fair h \<Longrightarrow> \<exists>r. readButtonScan h is s = Inr r"
proof (induction "is")
  case Nil
  then show ?case by simp
next
  case (Cons i "is")
  from Cons.prems obtain n where "\<not> pinLow h (clock s + 10 * n) (BUTTON_PINS ! i)"
    unfolding fair_def by blast
  from waitRelease_returns[OF this] obtain t where
    "waitRelease h (BUTTON_PINS ! i) (clock s) = Some t" by blast
  with Cons show ?case by simp
qed

lemma tick_returns:
  assumes "inv s" "fair h"
  shows "\<exists>s'. tick h gap s = Inr s'"
proof -
  let ?s = "s\<lparr>clock := clock s + gap\<rparr>"
  have i: "inv ?s" using assms(1) by simp
  show ?thesis
  proof (cases "gameState s")
    case WELCOME
    then show ?thesis by (simp add: tick_def loop_def)
  next
    case WAIT_FOR_START
    from assms(2) obtain n where "\<not> pinLow h (clock ?s + 10 * n) (BUTTON_PINS ! 2)"
      unfolding fair_def by blast
    from waitRelease_returns[OF this] obtain t where
      "waitRelease h (BUTTON_PINS ! 2) (clock ?s) = Some t" by blast
    with WAIT_FOR_START show ?thesis
      by (simp add: tick_def loop_def waitForStartButton_def Let_def)
  next
    case PLAY_SEQUENCE
    obtain a1 where a1: "addToSequence h ?s = Inr a1"
    proof (cases "sequenceLength ?s < MAX_SEQUENCE")
      case False
      then have "addToSequence h ?s = Inr ?s" by (simp add: addToSequence_cap)
      with that show ?thesis by blast
    next
      case True
      from assms(2) obtain n where "arduino_random h (draws ?s + n) 0 4 \<noteq> 2"
        unfolding fair_def by blast
      from drawColor_returns[OF this] obtain r where
        "drawColor h (sequenceLength ?s) (draws ?s) = Some r" by blast
      with True i have "\<exists>a. addToSequence h ?s = Inr a"
        by (cases r) (auto simp: addToSequence_def arrayWrite_def inv_def MAX_SEQUENCE_def)
      with that show ?thesis by blast
    qed
    from inv_addToSequence[OF i a1] PLAY_SEQUENCE have "inv a1" by simp
    from playSequence_result[OF this] a1 PLAY_SEQUENCE show ?thesis
      by (simp add: tick_def loop_def)
  next
    case USER_INPUT
    obtain x s1 where rb: "readButton h ?s = Inr (x, s1)"
      using readButtonScan_returns[OF assms(2), of "[0, 1, 2, 3]" ?s]
      by (cases "millis ?s - lastButtonPress ?s < debounceDelay")
        (auto simp: readButton_def)
    show ?thesis
    proof (cases "x = - 1")
      case True
      with rb USER_INPUT show ?thesis by (simp add: tick_def loop_def)
    next
      case False
      from readButton_result[OF rb] False i USER_INPUT
      have "inv s1" "gameState s1 = USER_INPUT" "0 \<le> x" "x < 4" by (auto simp: inv_def)
      from handleInput_result[OF this] rb False USER_INPUT show ?thesis
        by (simp add: tick_def loop_def)
    qed
  next
    case GAME_OVER
    then show ?thesis by (simp add: tick_def loop_def)
  qed
qed

lemma run_returns:
  "inv s \<Longrightarrow> fair h \<Longrightarrow> \<exists>s'. run h gaps s = Inr s'"
proof (induction gaps arbitrary: s)
  case Nil
  then show ?case by simp
next
  case (Cons gap gaps)
  from tick_returns[OF Cons.prems] obtain s1 where t: "tick h gap s = Inr s1" by blast
  with Cons.prems(1) have "inv s1" by (rule inv_tick)
  from Cons.IH[OF this Cons.prems(2)] t show ?case by simp
qed

lemma userInputRun_returns:
  "inv s \<Longrightarrow> fair h \<Longrightarrow> \<exists>r. userInputRun h gaps s = Inr r"
proof (induction gaps arbitrary: s)
  case Nil
  then show ?case by simp
next
  case (Cons gap gaps)
  show ?case
  proof (cases "gameState s = USER_INPUT")
    case False
    then show ?thesis by simp
  next
    case True
    from tick_returns[OF Cons.prems] obtain s1 where t: "tick h gap s = Inr s1" by blast
    with Cons.prems(1) have "inv s1" by (rule inv_tick)
    from Cons.IH[OF this Cons.prems(2)] obtain r where "userInputRun h gaps s1 = Inr r"
      by blast
    with t True show ?thesis by (cases r) simp
  qed
qed

lemma fair_demoHw: "fair demoHw"
proof -
  have "\<And>pin t. \<not> pinLow demoHw (t + 10 * 700) pin" by (simp add: demoHw_def)
  moreover have "\<And>k. \<exists>n. arduino_random demoHw (k + n) 0 4 \<noteq> 2"
  proof -
    fix k :: nat
    have "(2 + 3 * int k) mod 4 \<noteq> 2 \<or> (2 + 3 * int (k + 1)) mod 4 \<noteq> 2" by presburger
    then show "\<exists>n. arduino_random demoHw (k + n) 0 4 \<noteq> 2"
    proof
      assume "(2 + 3 * int k) mod 4 \<noteq> 2"
      then have "arduino_random demoHw (k + 0) 0 4 \<noteq> 2"
        by (simp add: arduino_random_def demoHw_def)
      then show ?thesis by blast
    next
      assume "(2 + 3 * int (k + 1)) mod 4 \<noteq> 2"
      then have "arduino_random demoHw (k + 1) 0 4 \<noteq> 2"
        by (simp add: arduino_random_def demoHw_def algebra_simps)
      then show ?thesis by blast
    qed
  qed
  ultimately show ?thesis unfolding fair_def by blast
qed

section \<open>The claims\<close>

subsection \<open>C3: the first colour of a round\<close>

text \<open>
  Claim C3. When the sequence is empty, \<open>addToSequence\<close> redraws for as long as the drawn
  channel is 2, the start channel: the element it stores at position 0 is never 2, and it is
  the first draw that differs from 2 (first conjunct); the redraw loop ends as soon as some
  later draw differs from 2 (second conjunct). When the sequence is not empty (and not full)
  the element appended is the very next result of \<open>random(0, 4)\<close>, whatever it is, and
  exactly one draw is made (third conjunct): no channel is excluded, so the appended
  colour is distributed as \<open>random(0, 4)\<close> itself.
\<close>

theorem addToSequence_first_not_start:
  "(sequenceLength s = 0 \<and> addToSequence h s = Inr s' \<longrightarrow>
      sequenceLength s' = 1 \<and> sequence s' ! 0 \<noteq> 2 \<and>
      (\<exists>k\<ge>draws s. draws s' = Suc k \<and> sequence s' ! 0 = arduino_random h k 0 4 \<and>
            (\<forall>j. draws s \<le> j \<and> j < k \<longrightarrow> arduino_random h j 0 4 = 2))) \<and>
   (sequenceLength u = 0 \<and> 0 < length (sequence u) \<and> arduino_random h (draws u + n) 0 4 \<noteq> 2 \<longrightarrow>
      (\<exists>u'. addToSequence h u = Inr u')) \<and>
   (0 < sequenceLength t \<and> sequenceLength t < MAX_SEQUENCE \<and>
    sequenceLength t < int (length (sequence t)) \<longrightarrow>
      addToSequence h t =
        Inr (t\<lparr>sequence := (sequence t)[nat (sequenceLength t) := arduino_random h (draws t) 0 4],
               sequenceLength := sequenceLength t + 1, draws := Suc (draws t)\<rparr>))"
proof (intro conjI impI)
  assume a: "sequenceLength s = 0 \<and> addToSequence h s = Inr s'"
  then have lt: "sequenceLength s < MAX_SEQUENCE" by (simp add: MAX_SEQUENCE_def)
  from addToSequence_grow[OF conjunct2[OF a] lt] obtain c k where
    d: "drawColor h (sequenceLength s) (draws s) = Some (c, k)" and
    len: "sequenceLength s < int (length (sequence s))" and
    s': "s' = s\<lparr>sequence := (sequence s)[nat (sequenceLength s) := c],
                  sequenceLength := sequenceLength s + 1, draws := k\<rparr>"
    by blast
  from drawColor_result[OF d] a have r: "draws s < k" "c = arduino_random h (k - 1) 0 4" "c \<noteq> 2"
    "\<forall>j. draws s \<le> j \<and> j < k - 1 \<longrightarrow> arduino_random h j 0 4 = 2"
    by auto
  from a len have c0: "sequence s' ! 0 = c" by (simp add: s')
  show "sequenceLength s' = 1" using a by (simp add: s')
  show "sequence s' ! 0 \<noteq> 2" using c0 r(3) by simp
  show "\<exists>k\<ge>draws s. draws s' = Suc k \<and> sequence s' ! 0 = arduino_random h k 0 4 \<and>
            (\<forall>j. draws s \<le> j \<and> j < k \<longrightarrow> arduino_random h j 0 4 = 2)"
    using r c0 by (intro exI[of _ "k - 1"]) (simp add: s')
next
  assume a: "sequenceLength u = 0 \<and> 0 < length (sequence u) \<and>
             arduino_random h (draws u + n) 0 4 \<noteq> 2"
  then obtain r where "drawColor h (sequenceLength u) (draws u) = Some r"
    using drawColor_returns by blast
  with a show "\<exists>u'. addToSequence h u = Inr u'"
    by (cases r) (simp add: addToSequence_def MAX_SEQUENCE_def arrayWrite_def)
next
  assume a: "0 < sequenceLength t \<and> sequenceLength t < MAX_SEQUENCE \<and>
             sequenceLength t < int (length (sequence t))"
  then have "drawColor h (sequenceLength t) (draws t) = Some (arduino_random h (draws t) 0 4, Suc (draws t))"
    by (intro drawColor_nonempty) simp
  with a show "addToSequence h t =
        Inr (t\<lparr>sequence := (sequence t)[nat (sequenceLength t) := arduino_random h (draws t) 0 4],
               sequenceLength := sequenceLength t + 1, draws := Suc (draws t)\<rparr>)"
    by (simp add: addToSequence_def arrayWrite_def)
qed

lemma addToSequence_demo_boot: "addToSequence demoHw boot = Inr afterFirst"
  by (simp add: addToSequence_def boot_def afterFirst_def demoHw_def drawColor.simps
      arduino_random_def MAX_SEQUENCE_def arrayWrite_def)

theorem addToSequence_first_not_start_witness:
  "sequenceLength boot = 0 \<and> addToSequence demoHw boot = Inr afterFirst \<and>
   sequence afterFirst ! 0 \<noteq> 2 \<and>
   arduino_random demoHw 0 0 4 = 2 \<and> arduino_random demoHw 1 0 4 = 1 \<and>
   (\<exists>u'. addToSequence demoHw boot = Inr u') \<and>
   sequenceLength afterFirst = 1 \<and>
   addToSequence demoHw afterFirst =
     Inr (afterFirst\<lparr>sequence := (sequence afterFirst)[1 := 0], sequenceLength := 2, draws := 3\<rparr>)"
proof -
  note T = addToSequence_first_not_start[of boot demoHw afterFirst boot 1 afterFirst]
  have r: "arduino_random demoHw 0 0 4 = 2" "arduino_random demoHw 1 0 4 = 1"
    "arduino_random demoHw 2 0 4 = 0"
    by (simp_all add: demoHw_def arduino_random_def)
  have b: "sequenceLength boot = 0" "draws boot = 0" "0 < length (sequence boot)"
    by (simp_all add: boot_def)
  have v: "sequenceLength afterFirst = 1" "draws afterFirst = 2"
    "length (sequence afterFirst) = 100"
    by (simp_all add: afterFirst_def boot_def)
  have h1: "sequenceLength boot = 0 \<and> addToSequence demoHw boot = Inr afterFirst"
    using b addToSequence_demo_boot by blast
  have h2: "sequenceLength boot = 0 \<and> 0 < length (sequence boot) \<and>
            arduino_random demoHw (draws boot + 1) 0 4 \<noteq> 2"
    using b r by simp
  have h3: "0 < sequenceLength afterFirst \<and> sequenceLength afterFirst < MAX_SEQUENCE \<and>
            sequenceLength afterFirst < int (length (sequence afterFirst))"
    using v by (simp add: MAX_SEQUENCE_def)
  have c1: "sequence afterFirst ! 0 \<noteq> 2" using T h1 by blast
  have c2: "\<exists>u'. addToSequence demoHw boot = Inr u'" using T h2 by blast
  have "addToSequence demoHw afterFirst =
        Inr (afterFirst\<lparr>sequence := (sequence afterFirst)
                 [nat (sequenceLength afterFirst) := arduino_random demoHw (draws afterFirst) 0 4],
               sequenceLength := sequenceLength afterFirst + 1, draws := Suc (draws afterFirst)\<rparr>)"
    using T h3 by blast
  then have c3: "addToSequence demoHw afterFirst =
     Inr (afterFirst\<lparr>sequence := (sequence afterFirst)[1 := 0], sequenceLength := 2, draws := 3\<rparr>)"
    by (simp add: v r)
  show ?thesis using h1 c1 c2 c3 r v by simp
qed

subsection \<open>C4: the cap on the sequence length\<close>

text \<open>
  Claim C4. In every reachable state \<open>sequenceLength\<close> is at most \<open>MAX_SEQUENCE\<close>, which
  is 100 and the size of the array. Once \<open>sequenceLength\<close> equals \<open>MAX_SEQUENCE\<close>, a
  call of \<open>addToSequence\<close> returns the state as it was: no element is written, the length
  and the array are unchanged, and no draw is made. The game goes on: the
  \<open>PLAY_SEQUENCE\<close> iteration still plays the sequence back and hands over to
  \<open>USER_INPUT\<close> with the capped length.
\<close>

theorem sequenceLength_capped:
  "(reachable s \<longrightarrow> sequenceLength s \<le> MAX_SEQUENCE \<and> MAX_SEQUENCE = 100 \<and>
      int (length (sequence s)) = MAX_SEQUENCE) \<and>
   (sequenceLength t = MAX_SEQUENCE \<longrightarrow> addToSequence h t = Inr t) \<and>
   (sequenceLength t = MAX_SEQUENCE \<and> inv t \<and> gameState t = PLAY_SEQUENCE \<longrightarrow>
      (\<exists>t'. tick h gap t = Inr t' \<and> gameState t' = USER_INPUT \<and>
            sequenceLength t' = MAX_SEQUENCE \<and> sequence t' = sequence t \<and> inv t'))"
proof (intro conjI impI)
  assume "reachable s"
  then have "inv s" by (rule reachable_inv)
  then show "sequenceLength s \<le> MAX_SEQUENCE" "MAX_SEQUENCE = 100"
      "int (length (sequence s)) = MAX_SEQUENCE"
    by (simp_all add: inv_def MAX_SEQUENCE_def)
next
  assume "sequenceLength t = MAX_SEQUENCE"
  then show "addToSequence h t = Inr t" by (simp add: addToSequence_cap)
next
  assume a: "sequenceLength t = MAX_SEQUENCE \<and> inv t \<and> gameState t = PLAY_SEQUENCE"
  let ?t = "t\<lparr>clock := clock t + gap\<rparr>"
  have i: "inv ?t" using a by simp
  have add: "addToSequence h ?t = Inr ?t" using a by (simp add: addToSequence_cap)
  obtain t' where t': "tick h gap t = Inr t'"
    using a add playSequence_result[OF i] by (simp add: tick_def loop_def)
  moreover from t' add a playSequence_result[OF i]
  have "gameState t' = USER_INPUT \<and> sequenceLength t' = MAX_SEQUENCE \<and> sequence t' = sequence t"
    by (auto simp: tick_def loop_def)
  moreover have "inv t'" using a t' inv_tick by blast
  ultimately show "\<exists>t'. tick h gap t = Inr t' \<and> gameState t' = USER_INPUT \<and>
            sequenceLength t' = MAX_SEQUENCE \<and> sequence t' = sequence t \<and> inv t'"
    by blast
qed

lemma inv_capState: "inv capState"
  by (simp add: inv_def capState_def boot_def MAX_SEQUENCE_def list_all_iff)

theorem sequenceLength_capped_witness:
  "reachable boot \<and> sequenceLength boot \<le> MAX_SEQUENCE \<and>
   sequenceLength capState = MAX_SEQUENCE \<and> inv capState \<and> gameState capState = PLAY_SEQUENCE \<and>
   addToSequence idleHw capState = Inr capState \<and>
   (\<exists>t'. tick idleHw 0 capState = Inr t' \<and> gameState t' = USER_INPUT \<and>
         sequenceLength t' = MAX_SEQUENCE \<and> sequence t' = sequence capState \<and> inv t')"
proof -
  have h: "sequenceLength capState = MAX_SEQUENCE" "gameState capState = PLAY_SEQUENCE"
    by (simp_all add: capState_def boot_def MAX_SEQUENCE_def)
  from sequenceLength_capped[of boot capState idleHw 0] reachable.boot h inv_capState
  show ?thesis by simp
qed

subsection \<open>The millisecond counter\<close>


lemma debounce_test:
  "(millis s - lastButtonPress s < debounceDelay) = (unat (millis s - lastButtonPress s) < 200)"
  by (simp add: debounceDelay_def word_less_nat_alt)

subsection \<open>Presses and releases\<close>

lemma readButton_returns:
  assumes "\<not> millis u - lastButtonPress u < debounceDelay" "i < 4"
    "pinLow h (clock u) (BUTTON_PINS ! i)" "\<forall>j<i. \<not> pinLow h (clock u) (BUTTON_PINS ! j)"
    "\<not> pinLow h (clock u + 10 * n) (BUTTON_PINS ! i)"
  shows "\<exists>u'. readButton h u = Inr (int i, u')"
proof -
  from waitRelease_returns[OF assms(5)] obtain t where
    t: "waitRelease h (BUTTON_PINS ! i) (clock u) = Some t" by blast
  from assms(2) have "i = 0 \<or> i = 1 \<or> i = 2 \<or> i = 3" by arith
  then show ?thesis
  proof (elim disjE)
    assume "i = 0"
    with assms(1,3) t show ?thesis by (simp add: readButton_def)
  next
    assume i: "i = 1"
    with assms(4) have "\<not> pinLow h (clock u) (BUTTON_PINS ! 0)" by simp
    with i assms(1,3) t show ?thesis by (simp add: readButton_def)
  next
    assume i: "i = 2"
    with assms(4) have "\<not> pinLow h (clock u) (BUTTON_PINS ! 0)"
      "\<not> pinLow h (clock u) (BUTTON_PINS ! 1)" by simp_all
    with i assms(1,3) t show ?thesis by (simp add: readButton_def)
  next
    assume i: "i = 3"
    with assms(4) have "\<not> pinLow h (clock u) (BUTTON_PINS ! 0)"
      "\<not> pinLow h (clock u) (BUTTON_PINS ! 1)" "\<not> pinLow h (clock u) (BUTTON_PINS ! 2)"
      by simp_all
    with i assms(1,3) t show ?thesis by (simp add: readButton_def)
  qed
qed

lemma readButton_released:
  assumes "readButton h s = Inr (x, s')" "x \<noteq> - 1"
  shows "0 \<le> x \<and> x < 4 \<and> pinLow h (clock s) (BUTTON_PINS ! nat x) \<and>
         \<not> pinLow h (clock s') (BUTTON_PINS ! nat x) \<and>
         (\<exists>n. clock s' = clock s + 10 * n \<and>
              (\<forall>j<n. pinLow h (clock s + 10 * j) (BUTTON_PINS ! nat x)))"
proof -
  from readButton_result[OF assms(1)] assms(2) obtain t where
    x: "0 \<le> x" "x < 4" "pinLow h (clock s) (BUTTON_PINS ! nat x)" and
    w: "waitRelease h (BUTTON_PINS ! nat x) (clock s) = Some t" and
    s': "s' = s\<lparr>lastButtonPress := millis s, clock := t\<rparr>"
    by auto
  from s' have "clock s' = t" by simp
  with waitRelease_polls[OF w] x show ?thesis by simp
qed

lemma readButton_not_again:
  assumes "readButton h s = Inr (x, s')" "x \<noteq> - 1" "readButton h s' = Inr (y, s'')"
  shows "y \<noteq> x"
proof
  assume "y = x"
  with assms readButton_released[of h s' y s''] readButton_released[of h s x s']
  show False by blast
qed

subsection \<open>C7: one event for each press\<close>

text \<open>
  Claim C7. When \<open>readButton\<close> returns a button index, that button read \<open>LOW\<close> at the
  call, it read \<open>LOW\<close> at each of the polls, 10 ms apart, that the function made before
  returning, and it reads released at the moment of the return; a second \<open>readButton\<close>
  at that moment cannot return the same button again, so a press that is held gives one
  event. The function does return once the button in question is seen released. The wait
  for the start button follows the same protocol on button 2, and it consults no debounce
  stamp: it accepts the press whatever \<open>lastButtonPress\<close> holds, also in a state in which
  \<open>readButton\<close> rejects every press because fewer than 200 ms have passed.
\<close>

theorem press_blocks_until_release:
  "(readButton h s = Inr (x, s') \<and> x \<noteq> - 1 \<longrightarrow>
      0 \<le> x \<and> x < 4 \<and> pinLow h (clock s) (BUTTON_PINS ! nat x) \<and>
      \<not> pinLow h (clock s') (BUTTON_PINS ! nat x) \<and>
      (\<exists>n. clock s' = clock s + 10 * n \<and>
           (\<forall>j<n. pinLow h (clock s + 10 * j) (BUTTON_PINS ! nat x))) \<and>
      (\<forall>y s''. readButton h s' = Inr (y, s'') \<longrightarrow> y \<noteq> x)) \<and>
   (\<not> millis u - lastButtonPress u < debounceDelay \<and> i < 4 \<and>
    pinLow h (clock u) (BUTTON_PINS ! i) \<and> (\<forall>j<i. \<not> pinLow h (clock u) (BUTTON_PINS ! j)) \<and>
    \<not> pinLow h (clock u + 10 * n) (BUTTON_PINS ! i) \<longrightarrow>
      (\<exists>u'. readButton h u = Inr (int i, u'))) \<and>
   (waitForStartButton h v = Inr (True, v') \<longrightarrow>
      pinLow h (clock v) (BUTTON_PINS ! 2) \<and> \<not> pinLow h (clock v') (BUTTON_PINS ! 2) \<and>
      (\<exists>n. clock v' = clock v + 10 * n \<and>
           (\<forall>j<n. pinLow h (clock v + 10 * j) (BUTTON_PINS ! 2)))) \<and>
   (pinLow h (clock w) (BUTTON_PINS ! 2) \<and> \<not> pinLow h (clock w + 10 * m) (BUTTON_PINS ! 2) \<longrightarrow>
      (\<exists>w'. waitForStartButton h w = Inr (True, w'))) \<and>
   (millis w - lastButtonPress w < debounceDelay \<longrightarrow> readButton h w = Inr (- 1, w))"
proof -
  have p1: "readButton h s = Inr (x, s') \<and> x \<noteq> - 1 \<longrightarrow>
      0 \<le> x \<and> x < 4 \<and> pinLow h (clock s) (BUTTON_PINS ! nat x) \<and>
      \<not> pinLow h (clock s') (BUTTON_PINS ! nat x) \<and>
      (\<exists>n. clock s' = clock s + 10 * n \<and>
           (\<forall>j<n. pinLow h (clock s + 10 * j) (BUTTON_PINS ! nat x))) \<and>
      (\<forall>y s''. readButton h s' = Inr (y, s'') \<longrightarrow> y \<noteq> x)"
    using readButton_released[of h s x s'] readButton_not_again[of h s x s'] by blast
  have p2: "\<not> millis u - lastButtonPress u < debounceDelay \<and> i < 4 \<and>
    pinLow h (clock u) (BUTTON_PINS ! i) \<and> (\<forall>j<i. \<not> pinLow h (clock u) (BUTTON_PINS ! j)) \<and>
    \<not> pinLow h (clock u + 10 * n) (BUTTON_PINS ! i) \<longrightarrow>
      (\<exists>u'. readButton h u = Inr (int i, u'))"
    using readButton_returns[of u i h n] by blast
  have p3: "waitForStartButton h v = Inr (True, v') \<longrightarrow>
      pinLow h (clock v) (BUTTON_PINS ! 2) \<and> \<not> pinLow h (clock v') (BUTTON_PINS ! 2) \<and>
      (\<exists>n. clock v' = clock v + 10 * n \<and>
           (\<forall>j<n. pinLow h (clock v + 10 * j) (BUTTON_PINS ! 2)))"
  proof
    assume a: "waitForStartButton h v = Inr (True, v')"
    from waitForStartButton_result[OF a] obtain t where
      l: "pinLow h (clock v) (BUTTON_PINS ! 2)" and
      w: "waitRelease h (BUTTON_PINS ! 2) (clock v) = Some t" and
      v': "v' = (blink v)\<lparr>clock := t\<rparr>"
      by auto
    from v' have "clock v' = t" by simp
    with waitRelease_polls[OF w] l show "pinLow h (clock v) (BUTTON_PINS ! 2) \<and>
      \<not> pinLow h (clock v') (BUTTON_PINS ! 2) \<and>
      (\<exists>n. clock v' = clock v + 10 * n \<and>
           (\<forall>j<n. pinLow h (clock v + 10 * j) (BUTTON_PINS ! 2)))"
      by simp
  qed
  have p4: "pinLow h (clock w) (BUTTON_PINS ! 2) \<and> \<not> pinLow h (clock w + 10 * m) (BUTTON_PINS ! 2) \<longrightarrow>
      (\<exists>w'. waitForStartButton h w = Inr (True, w'))"
  proof
    assume a: "pinLow h (clock w) (BUTTON_PINS ! 2) \<and>
               \<not> pinLow h (clock w + 10 * m) (BUTTON_PINS ! 2)"
    then obtain t where "waitRelease h (BUTTON_PINS ! 2) (clock w) = Some t"
      using waitRelease_returns by blast
    with a show "\<exists>w'. waitForStartButton h w = Inr (True, w')"
      by (simp add: waitForStartButton_def Let_def)
  qed
  have p5: "millis w - lastButtonPress w < debounceDelay \<longrightarrow> readButton h w = Inr (- 1, w)"
    by (simp add: readButton_def)
  from p1 p2 p3 p4 p5 show ?thesis by blast
qed

theorem press_blocks_until_release_witness:
  "readButton pressHw (polling\<lparr>clock := 5550\<rparr>) =
     Inr (1, polling\<lparr>lastButtonPress := 5550, clock := 5630\<rparr>) \<and>
   pinLow pressHw 5550 (BUTTON_PINS ! 1) \<and> \<not> pinLow pressHw 5630 (BUTTON_PINS ! 1) \<and>
   (\<exists>u'. readButton pressHw (polling\<lparr>clock := 5550\<rparr>) = Inr (1, u')) \<and>
   millis waiting - lastButtonPress waiting < debounceDelay \<and>
   pinLow demoHw (clock waiting) (BUTTON_PINS ! 2) \<and>
   waitForStartButton demoHw waiting = Inr (True, waiting\<lparr>clock := 4040\<rparr>) \<and>
   \<not> pinLow demoHw 4040 (BUTTON_PINS ! 2) \<and>
   readButton demoHw waiting = Inr (- 1, waiting)"
proof -
  let ?u = "polling\<lparr>clock := 5550\<rparr>"
  let ?u' = "polling\<lparr>lastButtonPress := 5550, clock := 5630\<rparr>"
  let ?v' = "waiting\<lparr>clock := 4040\<rparr>"
  note T = press_blocks_until_release[where h = pressHw and s = ?u and x = 1 and s' = ?u'
      and u = ?u and i = 1 and n = 8]
  note T' = press_blocks_until_release[where h = demoHw and v = waiting and v' = ?v'
      and w = waiting and m = 4]
  have r: "readButton pressHw ?u = Inr (1, ?u')"
    by (simp add: readButton_def polling_def pressHw_def BUTTON_PINS_def millis_def
        debounceDelay_def waitRelease.simps)
  have c: "clock ?u = 5550" "clock ?u' = 5630" "clock waiting = 4000" "clock ?v' = 4040"
    by (simp_all add: waiting_def)
  have h2: "\<not> millis ?u - lastButtonPress ?u < debounceDelay" "(1::nat) < 4"
    "pinLow pressHw (clock ?u) (BUTTON_PINS ! 1)"
    "\<forall>j<1. \<not> pinLow pressHw (clock ?u) (BUTTON_PINS ! j)"
    "\<not> pinLow pressHw (clock ?u + 10 * 8) (BUTTON_PINS ! 1)"
    by (simp_all add: polling_def pressHw_def BUTTON_PINS_def millis_def debounceDelay_def)
  have w: "waitForStartButton demoHw waiting = Inr (True, ?v')"
    by (simp add: waitForStartButton_def blink_def waiting_def boot_def demoHw_def
        BUTTON_PINS_def millis_def waitRelease.simps)
  have h4: "pinLow demoHw (clock waiting) (BUTTON_PINS ! 2)"
    "\<not> pinLow demoHw (clock waiting + 10 * 4) (BUTTON_PINS ! 2)"
    by (simp_all add: waiting_def demoHw_def BUTTON_PINS_def)
  have h5: "millis waiting - lastButtonPress waiting < debounceDelay"
    by (simp add: waiting_def millis_def debounceDelay_def)
  have c1: "pinLow pressHw (clock ?u) (BUTTON_PINS ! nat 1) \<and>
            \<not> pinLow pressHw (clock ?u') (BUTTON_PINS ! nat 1)"
    using T r by simp
  have c2: "\<exists>u'. readButton pressHw ?u = Inr (int 1, u')" using T h2 by blast
  have c3: "\<not> pinLow demoHw (clock ?v') (BUTTON_PINS ! 2)" using T' w by blast
  have c4: "\<exists>w'. waitForStartButton demoHw waiting = Inr (True, w')" using T' h4 by blast
  have c5: "readButton demoHw waiting = Inr (- 1, waiting)" using T' h5 by blast
  from r c1 c2 h5 h4(1) w c3 c5 show ?thesis by (simp add: c)
qed

subsection \<open>Single iterations of the loop\<close>

lemma tick_not_OutOfBounds:
  assumes "inv s"
  shows "tick h gap s \<noteq> Inl OutOfBounds"
proof -
  let ?s = "s\<lparr>clock := clock s + gap\<rparr>"
  have i: "inv ?s" using assms by simp
  show ?thesis
  proof (cases "gameState s")
    case WELCOME
    then show ?thesis by (simp add: tick_def loop_def)
  next
    case WAIT_FOR_START
    then show ?thesis
      by (auto simp: tick_def loop_def waitForStartButton_def Let_def
          split: sum.splits option.splits if_splits)
  next
    case PLAY_SEQUENCE
    have "addToSequence h ?s \<noteq> Inl OutOfBounds"
      using i by (auto simp: addToSequence_def arrayWrite_def inv_def MAX_SEQUENCE_def
          split: option.splits)
    moreover have "\<And>s1. addToSequence h ?s = Inr s1 \<Longrightarrow> playSequence s1 \<noteq> Inl OutOfBounds"
      using inv_addToSequence[OF i] PLAY_SEQUENCE playSequence_result by fastforce
    ultimately show ?thesis using PLAY_SEQUENCE
      by (auto simp: tick_def loop_def split: sum.splits)
  next
    case USER_INPUT
    have r: "readButton h ?s \<noteq> Inl OutOfBounds"
      by (auto simp: readButton_def split: option.splits)
    have "\<And>x s1. readButton h ?s = Inr (x, s1) \<Longrightarrow> x \<noteq> - 1 \<Longrightarrow>
             handleInput x s1 \<noteq> Inl OutOfBounds"
    proof -
      fix x s1 assume a: "readButton h ?s = Inr (x, s1)" "x \<noteq> - 1"
      from readButton_result[OF a(1)] a(2) i USER_INPUT
      have "inv s1" "gameState s1 = USER_INPUT" "0 \<le> x" "x < 4" by (auto simp: inv_def)
      from handleInput_result[OF this] show "handleInput x s1 \<noteq> Inl OutOfBounds" by simp
    qed
    with r USER_INPUT show ?thesis
      by (auto simp: tick_def loop_def split: sum.splits)
  next
    case GAME_OVER
    then show ?thesis by (simp add: tick_def loop_def)
  qed
qed

lemma tick_PLAY_SEQUENCE:
  assumes "inv s" "gameState s = PLAY_SEQUENCE" "tick h gap s = Inr s'"
  shows "gameState s' = USER_INPUT \<and> userInputIndex s' = 0 \<and>
         (\<exists>s1. addToSequence h (s\<lparr>clock := clock s + gap\<rparr>) = Inr s1 \<and>
               sequence s' = sequence s1 \<and> sequenceLength s' = sequenceLength s1)"
proof -
  let ?s = "s\<lparr>clock := clock s + gap\<rparr>"
  have i: "inv ?s" using assms by simp
  from assms(2,3) obtain s1 s2 where
    a: "addToSequence h ?s = Inr s1" and p: "playSequence s1 = Inr s2" and
    s': "s' = s2\<lparr>userInputIndex := 0, lastButtonPress := millis s2, gameState := USER_INPUT\<rparr>"
    by (auto simp: tick_def loop_def split: sum.splits)
  from inv_addToSequence[OF i a] assms(2) have "inv s1" by simp
  from p playSequence_result[OF this] a show ?thesis by (auto simp: s')
qed

lemma tick_USER_INPUT:
  assumes "inv s" "gameState s = USER_INPUT" "tick h gap s = Inr s'"
  shows "\<exists>x s1. readButton h (s\<lparr>clock := clock s + gap\<rparr>) = Inr (x, s1) \<and>
           inv s1 \<and> gameState s1 = USER_INPUT \<and> sequence s1 = sequence s \<and>
           sequenceLength s1 = sequenceLength s \<and> userInputIndex s1 = userInputIndex s \<and>
           trace s1 = trace s \<and>
           (if x = - 1 then s' = s1
            else 0 \<le> x \<and> x < 4 \<and>
              s' = (let s2 = s1\<lparr>trace := trace s1 @ colorEvents x (clock s1),
                                 clock := clock s1 + 500\<rparr> in
                    if x \<noteq> sequence s ! nat (userInputIndex s) then s2\<lparr>gameState := GAME_OVER\<rparr>
                    else if sequenceLength s \<le> userInputIndex s + 1
                    then s2\<lparr>userInputIndex := userInputIndex s + 1, clock := clock s1 + 1500,
                             gameState := PLAY_SEQUENCE\<rparr>
                    else s2\<lparr>userInputIndex := userInputIndex s + 1\<rparr>))"
proof -
  let ?s = "s\<lparr>clock := clock s + gap\<rparr>"
  have i: "inv ?s" using assms by simp
  from assms(2,3) obtain x s1 where
    r: "readButton h ?s = Inr (x, s1)" and
    s': "Inr s' = (if x \<noteq> - 1 then handleInput x s1 else Inr s1)"
    by (auto simp: tick_def loop_def split: sum.splits prod.splits)
  from readButton_result[OF r] i assms(2)
  have s1: "inv s1" "gameState s1 = USER_INPUT" "x = - 1 \<or> 0 \<le> x \<and> x < 4"
    "sequence s1 = sequence s" "sequenceLength s1 = sequenceLength s"
    "userInputIndex s1 = userInputIndex s" "trace s1 = trace s"
    by (auto simp: inv_def)
  show ?thesis
  proof (cases "x = - 1")
    case True
    with s' r s1 show ?thesis by auto
  next
    case False
    with s1 have x: "0 \<le> x" "x < 4" by auto
    from s' False handleInput_result[OF s1(1,2) x] r s1 x show ?thesis
      by (auto simp: Let_def)
  qed
qed

subsection \<open>C9: the cursor stays inside the sequence\<close>

text \<open>
  Claim C9. In every reachable state that is in \<open>USER_INPUT\<close> the cursor satisfies
  \<open>0 \<le> userInputIndex < sequenceLength\<close>, and \<open>sequenceLength\<close> is at most the
  size of the array, so the read of \<open>sequence[userInputIndex]\<close> is in bounds and the
  iteration never ends in \<open>OutOfBounds\<close>. The cursor is 0 when \<open>PLAY_SEQUENCE\<close> hands over
  to \<open>USER_INPUT\<close>, and an iteration of \<open>USER_INPUT\<close> after which the cursor has reached
  \<open>sequenceLength\<close> has left the state for \<open>PLAY_SEQUENCE\<close>.
\<close>

theorem cursor_in_bounds:
  "(reachable s \<and> gameState s = USER_INPUT \<longrightarrow>
      0 \<le> userInputIndex s \<and> userInputIndex s < sequenceLength s \<and>
      sequenceLength s \<le> int (length (sequence s)) \<and>
      arrayRead (sequence s) (userInputIndex s) = Inr (sequence s ! nat (userInputIndex s)) \<and>
      tick h gap s \<noteq> Inl OutOfBounds) \<and>
   (reachable u \<and> gameState u = PLAY_SEQUENCE \<and> tick h gap u = Inr u' \<longrightarrow>
      gameState u' = USER_INPUT \<and> userInputIndex u' = 0) \<and>
   (reachable s \<and> gameState s = USER_INPUT \<and> tick h gap s = Inr s' \<and>
    sequenceLength s' \<le> userInputIndex s' \<longrightarrow> gameState s' = PLAY_SEQUENCE)"
proof -
  have p1: "reachable s \<and> gameState s = USER_INPUT \<longrightarrow>
      0 \<le> userInputIndex s \<and> userInputIndex s < sequenceLength s \<and>
      sequenceLength s \<le> int (length (sequence s)) \<and>
      arrayRead (sequence s) (userInputIndex s) = Inr (sequence s ! nat (userInputIndex s)) \<and>
      tick h gap s \<noteq> Inl OutOfBounds"
  proof
    assume a: "reachable s \<and> gameState s = USER_INPUT"
    then have i: "inv s" by (simp add: reachable_inv)
    with a have "0 \<le> userInputIndex s" "userInputIndex s < sequenceLength s"
      "sequenceLength s \<le> int (length (sequence s))"
      by (simp_all add: inv_def MAX_SEQUENCE_def)
    then show "0 \<le> userInputIndex s \<and> userInputIndex s < sequenceLength s \<and>
      sequenceLength s \<le> int (length (sequence s)) \<and>
      arrayRead (sequence s) (userInputIndex s) = Inr (sequence s ! nat (userInputIndex s)) \<and>
      tick h gap s \<noteq> Inl OutOfBounds"
      using tick_not_OutOfBounds[OF i] by (simp add: arrayRead_def)
  qed
  have p2: "reachable u \<and> gameState u = PLAY_SEQUENCE \<and> tick h gap u = Inr u' \<longrightarrow>
      gameState u' = USER_INPUT \<and> userInputIndex u' = 0"
    using tick_PLAY_SEQUENCE[of u h gap u'] reachable_inv[of u] by blast
  have p3: "reachable s \<and> gameState s = USER_INPUT \<and> tick h gap s = Inr s' \<and>
    sequenceLength s' \<le> userInputIndex s' \<longrightarrow> gameState s' = PLAY_SEQUENCE"
  proof
    assume a: "reachable s \<and> gameState s = USER_INPUT \<and> tick h gap s = Inr s' \<and>
      sequenceLength s' \<le> userInputIndex s'"
    then have i: "inv s" by (simp add: reachable_inv)
    from a i have b: "userInputIndex s < sequenceLength s" by (simp add: inv_def)
    from tick_USER_INPUT[OF i] a obtain x s1 where
      s1: "sequenceLength s1 = sequenceLength s" "userInputIndex s1 = userInputIndex s" and
      c: "if x = - 1 then s' = s1
            else 0 \<le> x \<and> x < 4 \<and>
              s' = (let s2 = s1\<lparr>trace := trace s1 @ colorEvents x (clock s1),
                                 clock := clock s1 + 500\<rparr> in
                    if x \<noteq> sequence s ! nat (userInputIndex s) then s2\<lparr>gameState := GAME_OVER\<rparr>
                    else if sequenceLength s \<le> userInputIndex s + 1
                    then s2\<lparr>userInputIndex := userInputIndex s + 1, clock := clock s1 + 1500,
                             gameState := PLAY_SEQUENCE\<rparr>
                    else s2\<lparr>userInputIndex := userInputIndex s + 1\<rparr>)"
      by blast
    with a b show "gameState s' = PLAY_SEQUENCE"
      by (auto simp: Let_def split: if_splits)
  qed
  from p1 p2 p3 show ?thesis by blast
qed

lemma run_reachable: "reachable s \<Longrightarrow> run h gaps s = Inr s' \<Longrightarrow> reachable s'"
  by (induction gaps arbitrary: s) (auto split: sum.splits intro: reachable.tick)

lemmas run_defs = tick_def loop_def welcomeSequence_def cascade_def cascadeStep_def
  syncFlash_def allLeds_def gameOver_def gameOverFlash_def prim_defs LED_PINS_def TONES_def
  BUZZER_PIN_def BUTTON_PINS_def waitForStartButton_def blink_def millis_def
  waitRelease.simps addToSequence_def drawColor.simps arduino_random_def MAX_SEQUENCE_def
  arrayWrite_def arrayRead_def playSequence_def playSequenceFrom.simps playColor_def
  readButton_def debounceDelay_def handleInput_def Let_def

lemma run_started:
  "run demoHw [0, 800] boot = Inr demoStarted \<and> gameState demoStarted = PLAY_SEQUENCE \<and>
   sequenceLength demoStarted = 0 \<and> clock demoStarted = 4540"
  unfolding demoStarted_def by (simp add: run_defs boot_def demoHw_def)

lemma run_listening:
  "run demoHw [0, 800, 10] boot = Inr demoListening \<and> gameState demoListening = USER_INPUT \<and>
   sequenceLength demoListening = 1 \<and> userInputIndex demoListening = 0 \<and> clock demoListening = 5350 \<and>
   sequence demoListening ! 0 = 1 \<and> lastButtonPress demoListening = 5350"
  unfolding demoListening_def by (simp add: run_defs boot_def demoHw_def)

lemma tick_started: "tick demoHw 10 demoStarted = Inr demoListening"
  using run_started run_listening by (simp split: sum.splits)

lemma reachable_started: "reachable demoStarted"
  using run_reachable[OF reachable.boot] run_started by blast

lemma reachable_listening: "reachable demoListening"
  using run_reachable[OF reachable.boot] run_listening by blast

theorem cursor_in_bounds_witness:
  "reachable demoListening \<and> gameState demoListening = USER_INPUT \<and>
   userInputIndex demoListening = 0 \<and> sequenceLength demoListening = 1 \<and>
   arrayRead (sequence demoListening) (userInputIndex demoListening) = Inr 1 \<and>
   reachable demoStarted \<and> gameState demoStarted = PLAY_SEQUENCE \<and>
   tick demoHw 10 demoStarted = Inr demoListening \<and>
   (\<exists>s'. tick demoHw 700 demoListening = Inr s' \<and> userInputIndex s' = 1 \<and>
         sequenceLength s' = 1 \<and> gameState s' = PLAY_SEQUENCE)"
proof -
  note T = cursor_in_bounds[where s = demoListening and u = demoStarted and u' = demoListening
      and h = demoHw and gap = 10]
  have c1: "arrayRead (sequence demoListening) (userInputIndex demoListening) =
            Inr (sequence demoListening ! nat (userInputIndex demoListening))"
    using T reachable_listening run_listening by blast
  have c2: "gameState demoListening = USER_INPUT \<and> userInputIndex demoListening = 0"
    using T reachable_started run_started tick_started by blast
  obtain s' where s': "tick demoHw 700 demoListening = Inr s'" "userInputIndex s' = 1"
    "sequenceLength s' = 1"
    using run_listening unfolding demoListening_def
    by (simp add: run_defs boot_def demoHw_def)
  then have "gameState s' = PLAY_SEQUENCE"
    using cursor_in_bounds[where s = demoListening and h = demoHw and gap = 700 and s' = s']
      reachable_listening run_listening by simp
  with s' have c3: "\<exists>s'. tick demoHw 700 demoListening = Inr s' \<and> userInputIndex s' = 1 \<and>
         sequenceLength s' = 1 \<and> gameState s' = PLAY_SEQUENCE" by blast
  from c1 c2 c3 reachable_listening reachable_started run_listening run_started tick_started
  show ?thesis by simp
qed

subsection \<open>Game over and restart\<close>

lemma tick_GAME_OVER:
  assumes "gameState s = GAME_OVER"
  shows "\<exists>s'. tick h gap s = Inr s' \<and>
          s'\<lparr>trace := trace s\<rparr> = s\<lparr>gameState := WAIT_FOR_START, clock := clock s + gap + 2500\<rparr> \<and>
          take (length (trace s)) (trace s') = trace s \<and>
          list_all (\<lambda>(t, e). ledOrBuzzer e) (drop (length (trace s)) (trace s'))"
proof -
  let ?s = "s\<lparr>clock := clock s + gap\<rparr>"
  let ?s' = "(gameOver ?s)\<lparr>gameState := WAIT_FOR_START\<rparr>"
  have t: "tick h gap s = Inr ?s'" using assms by (simp add: tick_def loop_def)
  from gameOver_frame[of ?s] have
    f: "gameOver ?s = ?s\<lparr>trace := trace (gameOver ?s), clock := clock ?s + 2500\<rparr>" and
    p: "take (length (trace ?s)) (trace (gameOver ?s)) = trace ?s" and
    l: "list_all (\<lambda>(t, e). ledOrBuzzer e) (drop (length (trace ?s)) (trace (gameOver ?s)))"
    by blast+
  have "?s'\<lparr>trace := trace s\<rparr> = s\<lparr>gameState := WAIT_FOR_START, clock := clock s + gap + 2500\<rparr>"
    by (subst f) simp
  moreover have "take (length (trace s)) (trace ?s') = trace s" using p by simp
  moreover have "list_all (\<lambda>(t, e). ledOrBuzzer e) (drop (length (trace s)) (trace ?s'))"
    using l by simp
  ultimately show ?thesis using t by blast
qed

lemma tick_WAIT_FOR_START:
  assumes "gameState u = WAIT_FOR_START" "tick h gap u = Inr u'"
  shows "sequence u' = sequence u \<and>
     (if pinLow h (clock u + gap) (BUTTON_PINS ! 2)
      then sequenceLength u' = 0 \<and> gameState u' = PLAY_SEQUENCE
      else sequenceLength u' = sequenceLength u \<and> gameState u' = WAIT_FOR_START)"
proof -
  let ?u = "u\<lparr>clock := clock u + gap\<rparr>"
  from assms obtain b s1 where
    w: "waitForStartButton h ?u = Inr (b, s1)" and
    u': "u' = (if b then (delay 500 (digitalWrite (LED_PINS ! 2) False
                 (s1\<lparr>sequenceLength := 0\<rparr>)))\<lparr>gameState := PLAY_SEQUENCE\<rparr> else s1)"
    by (auto simp: tick_def loop_def split: sum.splits if_splits)
  from waitForStartButton_result[OF w] assms(1) show ?thesis
    by (auto simp: u' prim_defs)
qed

lemma tick_USER_INPUT_frame:
  assumes "inv s" "gameState s = USER_INPUT" "tick h gap s = Inr s'"
  shows "sequence s' = sequence s \<and> sequenceLength s' = sequenceLength s"
proof -
  from tick_USER_INPUT[OF assms] obtain x s1 where
    s1: "sequence s1 = sequence s" "sequenceLength s1 = sequenceLength s" and
    c: "if x = - 1 then s' = s1
        else 0 \<le> x \<and> x < 4 \<and>
          s' = (let s2 = s1\<lparr>trace := trace s1 @ colorEvents x (clock s1),
                             clock := clock s1 + 500\<rparr> in
                if x \<noteq> sequence s ! nat (userInputIndex s) then s2\<lparr>gameState := GAME_OVER\<rparr>
                else if sequenceLength s \<le> userInputIndex s + 1
                then s2\<lparr>userInputIndex := userInputIndex s + 1, clock := clock s1 + 1500,
                         gameState := PLAY_SEQUENCE\<rparr>
                else s2\<lparr>userInputIndex := userInputIndex s + 1\<rparr>)"
    by blast
  show ?thesis
  proof (cases "x = - 1")
    case True
    with c s1 show ?thesis by simp
  next
    case False
    with c have "sequence s' = sequence s1 \<and> sequenceLength s' = sequenceLength s1"
      by (simp add: Let_def)
    with s1 show ?thesis by simp
  qed
qed

lemma sequenceLength_reset:
  assumes "inv v" "tick h gap v = Inr v'" "sequenceLength v' = 0" "sequenceLength v \<noteq> 0"
  shows "gameState v = WAIT_FOR_START \<and> pinLow h (clock v + gap) (BUTTON_PINS ! 2)"
proof (cases "gameState v")
  case WELCOME
  with assms show ?thesis by (auto simp: tick_def loop_def)
next
  case WAIT_FOR_START
  with tick_WAIT_FOR_START[OF this assms(2)] assms(3,4) show ?thesis
    by (auto split: if_splits)
next
  case PLAY_SEQUENCE
  from tick_PLAY_SEQUENCE[OF assms(1) this assms(2)] obtain s1 where
    a: "addToSequence h (v\<lparr>clock := clock v + gap\<rparr>) = Inr s1"
    "sequenceLength v' = sequenceLength s1" by blast
  have "inv (v\<lparr>clock := clock v + gap\<rparr>)" using assms(1) by simp
  from inv_addToSequence[OF this a(1)] PLAY_SEQUENCE have "0 < sequenceLength s1" by simp
  with a(2) assms(3) show ?thesis by simp
next
  case USER_INPUT
  from tick_USER_INPUT_frame[OF assms(1) this assms(2)] assms(3,4) show ?thesis
    by simp
next
  case GAME_OVER
  with assms show ?thesis by (auto simp: tick_def loop_def)
qed

subsection \<open>C10: what the game-over animation leaves alone\<close>

text \<open>
  Claim C10. The \<open>GAME_OVER\<close> iteration always returns, in \<open>WAIT_FOR_START\<close>, 2500 ms
  later; apart from the state, the clock and the trace every global is as before, the
  sequence array and \<open>sequenceLength\<close> among them, and the events it adds to the trace
  are writes to the four LED pins and tone commands on the buzzer pin. An iteration in
  \<open>WAIT_FOR_START\<close> never touches the array; it sets \<open>sequenceLength\<close> to 0 exactly when
  it finds the start button pressed, and leaves it alone otherwise. From a state that
  satisfies the invariant, no other iteration takes a non-zero \<open>sequenceLength\<close> to 0.
  So the sequence of the lost round stays in memory until the next start press.
\<close>

theorem gameOver_keeps_sequence:
  "(gameState s = GAME_OVER \<longrightarrow>
      (\<exists>s'. tick h gap s = Inr s' \<and> gameState s' = WAIT_FOR_START \<and>
            sequence s' = sequence s \<and> sequenceLength s' = sequenceLength s \<and>
            s'\<lparr>trace := trace s\<rparr> =
              s\<lparr>gameState := WAIT_FOR_START, clock := clock s + gap + 2500\<rparr> \<and>
            take (length (trace s)) (trace s') = trace s \<and>
            list_all (\<lambda>(t, e). ledOrBuzzer e) (drop (length (trace s)) (trace s')))) \<and>
   (gameState u = WAIT_FOR_START \<and> tick h gap u = Inr u' \<longrightarrow>
      sequence u' = sequence u \<and>
      (if pinLow h (clock u + gap) (BUTTON_PINS ! 2)
       then sequenceLength u' = 0 \<and> gameState u' = PLAY_SEQUENCE
       else sequenceLength u' = sequenceLength u \<and> gameState u' = WAIT_FOR_START)) \<and>
   (inv v \<and> tick h gap v = Inr v' \<and> sequenceLength v' = 0 \<and> sequenceLength v \<noteq> 0 \<longrightarrow>
      gameState v = WAIT_FOR_START \<and> pinLow h (clock v + gap) (BUTTON_PINS ! 2))"
proof -
  have p1: "gameState s = GAME_OVER \<longrightarrow>
      (\<exists>s'. tick h gap s = Inr s' \<and> gameState s' = WAIT_FOR_START \<and>
            sequence s' = sequence s \<and> sequenceLength s' = sequenceLength s \<and>
            s'\<lparr>trace := trace s\<rparr> =
              s\<lparr>gameState := WAIT_FOR_START, clock := clock s + gap + 2500\<rparr> \<and>
            take (length (trace s)) (trace s') = trace s \<and>
            list_all (\<lambda>(t, e). ledOrBuzzer e) (drop (length (trace s)) (trace s')))"
  proof
    assume "gameState s = GAME_OVER"
    from tick_GAME_OVER[OF this, of h gap] obtain s' where
      s': "tick h gap s = Inr s'"
      "s'\<lparr>trace := trace s\<rparr> = s\<lparr>gameState := WAIT_FOR_START, clock := clock s + gap + 2500\<rparr>"
      "take (length (trace s)) (trace s') = trace s"
      "list_all (\<lambda>(t, e). ledOrBuzzer e) (drop (length (trace s)) (trace s'))"
      by blast
    have "gameState s' = gameState (s'\<lparr>trace := trace s\<rparr>)"
      "sequence s' = sequence (s'\<lparr>trace := trace s\<rparr>)"
      "sequenceLength s' = sequenceLength (s'\<lparr>trace := trace s\<rparr>)"
      by simp_all
    then have "gameState s' = WAIT_FOR_START" "sequence s' = sequence s"
      "sequenceLength s' = sequenceLength s"
      by (simp_all only: s'(2)) simp_all
    with s' show "\<exists>s'. tick h gap s = Inr s' \<and> gameState s' = WAIT_FOR_START \<and>
            sequence s' = sequence s \<and> sequenceLength s' = sequenceLength s \<and>
            s'\<lparr>trace := trace s\<rparr> =
              s\<lparr>gameState := WAIT_FOR_START, clock := clock s + gap + 2500\<rparr> \<and>
            take (length (trace s)) (trace s') = trace s \<and>
            list_all (\<lambda>(t, e). ledOrBuzzer e) (drop (length (trace s)) (trace s'))"
      by blast
  qed
  from p1 tick_WAIT_FOR_START[of u h gap u'] sequenceLength_reset[of v h gap v']
  show ?thesis by blast
qed

lemma tick_lost:
  "tick idleHw 0 lost = Inr lostWaiting \<and> gameState lostWaiting = WAIT_FOR_START \<and>
   clock lostWaiting = 9500 \<and> sequenceLength lostWaiting = 1 \<and> inv lostWaiting"
  unfolding lostWaiting_def
  by (simp add: run_defs lost_def afterFirst_def boot_def idleHw_def inv_def
      take_Suc_conv_app_nth)

theorem gameOver_keeps_sequence_witness:
  "gameState lost = GAME_OVER \<and> sequenceLength lost = 1 \<and>
   tick idleHw 0 lost = Inr lostWaiting \<and> gameState lostWaiting = WAIT_FOR_START \<and>
   sequence lostWaiting = sequence lost \<and> sequenceLength lostWaiting = 1 \<and>
   (\<exists>u'. tick idleHw 0 lostWaiting = Inr u' \<and> sequenceLength u' = 1 \<and>
         gameState u' = WAIT_FOR_START \<and> sequence u' = sequence lost) \<and>
   pinLow restartHw (clock lostWaiting) (BUTTON_PINS ! 2) \<and>
   (\<exists>v'. tick restartHw 0 lostWaiting = Inr v' \<and> sequenceLength v' = 0 \<and>
         gameState v' = PLAY_SEQUENCE \<and> sequence v' = sequence lost)"
proof -
  have g: "gameState lost = GAME_OVER" "sequenceLength lost = 1"
    by (simp_all add: lost_def afterFirst_def)
  from gameOver_keeps_sequence[where s = lost and h = idleHw and gap = 0] g
  obtain s' where "tick idleHw 0 lost = Inr s'" "sequence s' = sequence lost" by blast
  with tick_lost have c1: "sequence lostWaiting = sequence lost" by simp
  obtain u' where u': "tick idleHw 0 lostWaiting = Inr u'"
    using tick_lost unfolding lostWaiting_def
    by (simp add: run_defs lost_def afterFirst_def boot_def idleHw_def)
  have ni: "\<not> pinLow idleHw (clock lostWaiting + 0) (BUTTON_PINS ! 2)"
    by (simp add: idleHw_def)
  from gameOver_keeps_sequence[where u = lostWaiting and h = idleHw and gap = 0 and u' = u']
    u' tick_lost ni
  have c2: "sequence u' = sequence lostWaiting \<and> sequenceLength u' = 1 \<and>
            gameState u' = WAIT_FOR_START" by simp
  have p: "pinLow restartHw (clock lostWaiting) (BUTTON_PINS ! 2)"
    using tick_lost by (simp add: restartHw_def BUTTON_PINS_def)
  obtain v' where v': "tick restartHw 0 lostWaiting = Inr v'"
    using tick_lost unfolding lostWaiting_def
    by (simp add: run_defs lost_def afterFirst_def boot_def idleHw_def restartHw_def)
  from gameOver_keeps_sequence[where u = lostWaiting and h = restartHw and gap = 0 and u' = v']
    v' tick_lost p
  have c3: "sequence v' = sequence lostWaiting \<and> sequenceLength v' = 0 \<and>
            gameState v' = PLAY_SEQUENCE" by simp
  have e2: "\<exists>u'. tick idleHw 0 lostWaiting = Inr u' \<and> sequenceLength u' = 1 \<and>
         gameState u' = WAIT_FOR_START \<and> sequence u' = sequence lost"
    using u' c2 c1 by (intro exI[of _ u']) simp
  have e3: "\<exists>v'. tick restartHw 0 lostWaiting = Inr v' \<and> sequenceLength v' = 0 \<and>
         gameState v' = PLAY_SEQUENCE \<and> sequence v' = sequence lost"
    using v' c3 c1 by (intro exI[of _ v']) simp
  from g tick_lost c1 e2 p e3 show ?thesis by blast
qed

subsection \<open>The times of a playback\<close>

lemma playbackEvents_snoc:
  "playbackEvents (cs @ [c]) t = playbackEvents cs t @ colorEvents c (t + 800 * length cs)"
  by (induction cs arbitrary: t) (simp_all add: add.assoc)

lemma playbackEvents_take:
  "n \<le> length cs \<Longrightarrow>
   playbackEvents (take n cs) t =
     concat (map (\<lambda>i. colorEvents (cs ! i) (t + (500 + 300) * i)) [0..<n])"
proof (induction n)
  case 0
  then show ?case by simp
next
  case (Suc n)
  then have "take (Suc n) cs = take n cs @ [cs ! n]" by (simp add: take_Suc_conv_app_nth)
  with Suc show ?case by (simp add: playbackEvents_snoc)
qed

subsection \<open>C8: the timing constants\<close>

text \<open>
  Claim C8. The debounce interval is 200 ms: \<open>readButton\<close> rejects a poll exactly when
  fewer than 200 ms of the millisecond counter have passed since the stamp. \<open>playColor\<close>
  switches the LED on and starts a tone of 500 ms at the same moment, and switches the LED
  off 500 ms later. \<open>playSequence\<close> starts colour \<open>i\<close> of the sequence \<open>(500 + 300) * i\<close>
  milliseconds after it began, so that 300 ms separate the end of one colour from the start
  of the next. An accepted input that completes the sequence leaves \<open>USER_INPUT\<close> for
  \<open>PLAY_SEQUENCE\<close> after the 500 ms of its own feedback and a pause of 1000 ms.
\<close>

theorem timing_constants:
  "debounceDelay = 200 \<and>
   readButton h s =
     (if unat (millis s - lastButtonPress s) < 200 then Inr (- 1, s)
      else readButtonScan h [0, 1, 2, 3] s) \<and>
   (0 \<le> c \<and> c < 4 \<longrightarrow>
      playColor c s =
        Inr (s\<lparr>trace := trace s @
                 [(clock s, DigitalWrite (LED_PINS ! nat c) True),
                  (clock s, Tone BUZZER_PIN (TONES ! nat c) 500),
                  (clock s + 500, DigitalWrite (LED_PINS ! nat c) False)],
               clock := clock s + 500\<rparr>)) \<and>
   (inv s \<longrightarrow>
      playSequence s =
        Inr (s\<lparr>trace := trace s @
                 concat (map (\<lambda>i. colorEvents (sequence s ! i) (clock s + (500 + 300) * i))
                           [0..<nat (sequenceLength s)]),
               clock := clock s + (500 + 300) * nat (sequenceLength s)\<rparr>)) \<and>
   colorEvents c t =
     [(t, DigitalWrite (LED_PINS ! nat c) True), (t, Tone BUZZER_PIN (TONES ! nat c) 500),
      (t + 500, DigitalWrite (LED_PINS ! nat c) False)] \<and>
   (inv u \<and> gameState u = USER_INPUT \<and> 0 \<le> x \<and> x < 4 \<and>
    x = sequence u ! nat (userInputIndex u) \<and> userInputIndex u + 1 = sequenceLength u \<longrightarrow>
      handleInput x u =
        Inr (u\<lparr>trace := trace u @ colorEvents x (clock u), userInputIndex := sequenceLength u,
               clock := clock u + 500 + 1000, gameState := PLAY_SEQUENCE\<rparr>))"
proof -
  have p1: "debounceDelay = 200" by (simp add: debounceDelay_def)
  have p2: "readButton h s =
     (if unat (millis s - lastButtonPress s) < 200 then Inr (- 1, s)
      else readButtonScan h [0, 1, 2, 3] s)"
    unfolding readButton_def debounce_test by simp
  have p3: "0 \<le> c \<and> c < 4 \<longrightarrow>
      playColor c s =
        Inr (s\<lparr>trace := trace s @
                 [(clock s, DigitalWrite (LED_PINS ! nat c) True),
                  (clock s, Tone BUZZER_PIN (TONES ! nat c) 500),
                  (clock s + 500, DigitalWrite (LED_PINS ! nat c) False)],
               clock := clock s + 500\<rparr>)"
    using playColor_events[of c s] by (simp add: colorEvents_def)
  have p4: "inv s \<longrightarrow>
      playSequence s =
        Inr (s\<lparr>trace := trace s @
                 concat (map (\<lambda>i. colorEvents (sequence s ! i) (clock s + (500 + 300) * i))
                           [0..<nat (sequenceLength s)]),
               clock := clock s + (500 + 300) * nat (sequenceLength s)\<rparr>)"
  proof
    assume i: "inv s"
    then have "nat (sequenceLength s) \<le> length (sequence s)"
      by (auto simp: inv_def MAX_SEQUENCE_def)
    from playbackEvents_take[OF this] playSequence_result[OF i]
    show "playSequence s =
        Inr (s\<lparr>trace := trace s @
                 concat (map (\<lambda>i. colorEvents (sequence s ! i) (clock s + (500 + 300) * i))
                           [0..<nat (sequenceLength s)]),
               clock := clock s + (500 + 300) * nat (sequenceLength s)\<rparr>)"
      by simp
  qed
  have p5: "colorEvents c t =
     [(t, DigitalWrite (LED_PINS ! nat c) True), (t, Tone BUZZER_PIN (TONES ! nat c) 500),
      (t + 500, DigitalWrite (LED_PINS ! nat c) False)]"
    by (simp add: colorEvents_def)
  have p6: "inv u \<and> gameState u = USER_INPUT \<and> 0 \<le> x \<and> x < 4 \<and>
    x = sequence u ! nat (userInputIndex u) \<and> userInputIndex u + 1 = sequenceLength u \<longrightarrow>
      handleInput x u =
        Inr (u\<lparr>trace := trace u @ colorEvents x (clock u), userInputIndex := sequenceLength u,
               clock := clock u + 500 + 1000, gameState := PLAY_SEQUENCE\<rparr>)"
  proof
    assume a: "inv u \<and> gameState u = USER_INPUT \<and> 0 \<le> x \<and> x < 4 \<and>
      x = sequence u ! nat (userInputIndex u) \<and> userInputIndex u + 1 = sequenceLength u"
    then have "handleInput x u =
     Inr (let s1 = u\<lparr>trace := trace u @ colorEvents x (clock u), clock := clock u + 500\<rparr> in
          if x \<noteq> sequence u ! nat (userInputIndex u) then s1\<lparr>gameState := GAME_OVER\<rparr>
          else if sequenceLength u \<le> userInputIndex u + 1
          then s1\<lparr>userInputIndex := userInputIndex u + 1, clock := clock u + 1500,
                   gameState := PLAY_SEQUENCE\<rparr>
          else s1\<lparr>userInputIndex := userInputIndex u + 1\<rparr>)"
      by (intro handleInput_result) simp_all
    with a show "handleInput x u =
        Inr (u\<lparr>trace := trace u @ colorEvents x (clock u), userInputIndex := sequenceLength u,
               clock := clock u + 500 + 1000, gameState := PLAY_SEQUENCE\<rparr>)"
      by (simp add: Let_def)
  qed
  from p1 p2 p3 p4 p5 p6 show ?thesis by blast
qed

lemma inv_polling: "inv polling"
  by (simp add: inv_def polling_def afterFirst_def boot_def MAX_SEQUENCE_def
      take_Suc_conv_app_nth)

theorem timing_constants_witness:
  "inv polling \<and> gameState polling = USER_INPUT \<and> sequence polling ! 0 = 1 \<and>
   userInputIndex polling + 1 = sequenceLength polling \<and> clock polling = 5450 \<and>
   playColor 1 polling =
     Inr (polling\<lparr>trace := [(5450, DigitalWrite 4 True), (5450, Tone 11 209 500),
                               (5950, DigitalWrite 4 False)], clock := 5950\<rparr>) \<and>
   playSequence polling =
     Inr (polling\<lparr>trace := [(5450, DigitalWrite 4 True), (5450, Tone 11 209 500),
                               (5950, DigitalWrite 4 False)], clock := 6250\<rparr>) \<and>
   handleInput 1 polling =
     Inr (polling\<lparr>trace := [(5450, DigitalWrite 4 True), (5450, Tone 11 209 500),
                               (5950, DigitalWrite 4 False)],
                   userInputIndex := 1, clock := 6950, gameState := PLAY_SEQUENCE\<rparr>)"
proof -
  note T = timing_constants[where s = polling and c = 1 and u = polling and x = 1 and t = 5450]
  have v: "gameState polling = USER_INPUT" "sequence polling ! 0 = 1"
    "userInputIndex polling = 0" "sequenceLength polling = 1" "clock polling = 5450"
    "trace polling = []"
    by (simp_all add: polling_def afterFirst_def boot_def)
  have e: "colorEvents 1 5450 = [(5450, DigitalWrite 4 True), (5450, Tone 11 209 500),
                               (5950, DigitalWrite 4 False)]"
    by (simp add: colorEvents_def LED_PINS_def TONES_def BUZZER_PIN_def)
  have c3: "playColor 1 polling =
     Inr (polling\<lparr>trace := [(5450, DigitalWrite 4 True), (5450, Tone 11 209 500),
                               (5950, DigitalWrite 4 False)], clock := 5950\<rparr>)"
    using T by (simp add: v LED_PINS_def TONES_def BUZZER_PIN_def)
  have c4: "playSequence polling =
     Inr (polling\<lparr>trace := [(5450, DigitalWrite 4 True), (5450, Tone 11 209 500),
                               (5950, DigitalWrite 4 False)], clock := 6250\<rparr>)"
    using T inv_polling by (simp add: v e)
  have c6: "handleInput 1 polling =
     Inr (polling\<lparr>trace := [(5450, DigitalWrite 4 True), (5450, Tone 11 209 500),
                               (5950, DigitalWrite 4 False)],
                   userInputIndex := 1, clock := 6950, gameState := PLAY_SEQUENCE\<rparr>)"
    using T inv_polling by (simp add: v e)
  from inv_polling v c3 c4 c6 show ?thesis by simp
qed

subsection \<open>Stays in \<open>USER_INPUT\<close>\<close>

lemma userInputRun_left:
  "gameState s \<noteq> USER_INPUT \<Longrightarrow> userInputRun h gaps s = Inr ([], s)"
  by (cases gaps) simp_all

lemma accepted_eq:
  "readButton h (s\<lparr>clock := clock s + gap\<rparr>) = Inr (x, s1) \<Longrightarrow>
   accepted h gap s = (if x = - 1 then [] else [x])"
  by (simp add: accepted_def)

lemma userInputRun_step:
  assumes "inv s" "gameState s = USER_INPUT" "userInputRun h (gap # gaps) s = Inr (xs, s')"
  shows "\<exists>s1 xs'. tick h gap s = Inr s1 \<and> inv s1 \<and> userInputRun h gaps s1 = Inr (xs', s') \<and>
           sequence s1 = sequence s \<and> sequenceLength s1 = sequenceLength s \<and>
           (xs = xs' \<and> gameState s1 = USER_INPUT \<and> userInputIndex s1 = userInputIndex s \<or>
            (\<exists>x. xs = x # xs' \<and> 0 \<le> x \<and> x < 4 \<and>
               (if x \<noteq> sequence s ! nat (userInputIndex s)
                then gameState s1 = GAME_OVER \<and> userInputIndex s1 = userInputIndex s \<and>
                     500 \<le> clock s1 \<and>
                     drop (length (trace s1) - 3) (trace s1) = colorEvents x (clock s1 - 500)
                else if sequenceLength s \<le> userInputIndex s + 1
                then gameState s1 = PLAY_SEQUENCE \<and> userInputIndex s1 = userInputIndex s + 1
                else gameState s1 = USER_INPUT \<and> userInputIndex s1 = userInputIndex s + 1)))"
proof -
  from assms(2,3) obtain s1 xs' where
    t: "tick h gap s = Inr s1" and r: "userInputRun h gaps s1 = Inr (xs', s')" and
    xs: "xs = accepted h gap s @ xs'"
    by (auto split: sum.splits)
  have i1: "inv s1" using assms(1) t by (rule inv_tick)
  from tick_USER_INPUT_frame[OF assms(1,2) t]
  have fr: "sequence s1 = sequence s" "sequenceLength s1 = sequenceLength s" by simp_all
  from tick_USER_INPUT[OF assms(1,2) t] obtain x r1 where
    rb: "readButton h (s\<lparr>clock := clock s + gap\<rparr>) = Inr (x, r1)" and
    r1: "gameState r1 = USER_INPUT" "userInputIndex r1 = userInputIndex s" and
    c: "if x = - 1 then s1 = r1
        else 0 \<le> x \<and> x < 4 \<and>
          s1 = (let s2 = r1\<lparr>trace := trace r1 @ colorEvents x (clock r1),
                             clock := clock r1 + 500\<rparr> in
                if x \<noteq> sequence s ! nat (userInputIndex s) then s2\<lparr>gameState := GAME_OVER\<rparr>
                else if sequenceLength s \<le> userInputIndex s + 1
                then s2\<lparr>userInputIndex := userInputIndex s + 1, clock := clock r1 + 1500,
                         gameState := PLAY_SEQUENCE\<rparr>
                else s2\<lparr>userInputIndex := userInputIndex s + 1\<rparr>)"
    by blast
  have acc: "accepted h gap s = (if x = - 1 then [] else [x])" using rb by (rule accepted_eq)
  show ?thesis
  proof (cases "x = - 1")
    case True
    with c r1 acc xs have "xs = xs' \<and> gameState s1 = USER_INPUT \<and>
        userInputIndex s1 = userInputIndex s" by simp
    with t i1 r fr show ?thesis by blast
  next
    case False
    with c have x: "0 \<le> x" "x < 4" by simp_all
    have xs': "xs = x # xs'" using False acc xs by simp
    have "if x \<noteq> sequence s ! nat (userInputIndex s)
          then gameState s1 = GAME_OVER \<and> userInputIndex s1 = userInputIndex s \<and>
               500 \<le> clock s1 \<and>
               drop (length (trace s1) - 3) (trace s1) = colorEvents x (clock s1 - 500)
          else if sequenceLength s \<le> userInputIndex s + 1
          then gameState s1 = PLAY_SEQUENCE \<and> userInputIndex s1 = userInputIndex s + 1
          else gameState s1 = USER_INPUT \<and> userInputIndex s1 = userInputIndex s + 1"
    proof (cases "x \<noteq> sequence s ! nat (userInputIndex s)")
      case True
      with c False have "s1 = r1\<lparr>trace := trace r1 @ colorEvents x (clock r1),
                             clock := clock r1 + 500, gameState := GAME_OVER\<rparr>"
        by (simp add: Let_def)
      with True r1 show ?thesis by (simp add: colorEvents_def)
    next
      case m: False
      show ?thesis
      proof (cases "sequenceLength s \<le> userInputIndex s + 1")
        case True
        with c False m have "s1 = r1\<lparr>trace := trace r1 @ colorEvents x (clock r1),
            userInputIndex := userInputIndex s + 1, clock := clock r1 + 1500,
            gameState := PLAY_SEQUENCE\<rparr>"
          by (simp add: Let_def)
        with True m show ?thesis by simp
      next
        case n: False
        with c False m have "s1 = r1\<lparr>trace := trace r1 @ colorEvents x (clock r1),
            clock := clock r1 + 500, userInputIndex := userInputIndex s + 1\<rparr>"
          by (simp add: Let_def)
        with n m r1 show ?thesis by simp
      qed
    qed
    with t i1 r fr xs' x show ?thesis by blast
  qed
qed

lemma userInputRun_mismatch:
  assumes "userInputRun h gaps s = Inr (xs, s')" "inv s" "gameState s = USER_INPUT"
    "k < length xs" "int k + userInputIndex s < sequenceLength s"
    "\<forall>i<k. xs ! i = sequence s ! (nat (userInputIndex s) + i)"
    "xs ! k \<noteq> sequence s ! (nat (userInputIndex s) + k)"
  shows "gameState s' = GAME_OVER \<and> length xs = Suc k \<and>
         userInputIndex s' = userInputIndex s + int k \<and>
         sequence s' = sequence s \<and> sequenceLength s' = sequenceLength s \<and>
         500 \<le> clock s' \<and>
         drop (length (trace s') - 3) (trace s') = colorEvents (xs ! k) (clock s' - 500)"
  using assms
proof (induction gaps arbitrary: s xs k)
  case Nil
  then show ?case by simp
next
  case (Cons gap gaps)
  have j0: "0 \<le> userInputIndex s" using Cons.prems(2,3) by (simp add: inv_def)
  from userInputRun_step[OF Cons.prems(2,3,1)] obtain s1 xs' where
    i1: "inv s1" and r: "userInputRun h gaps s1 = Inr (xs', s')" and
    fr: "sequence s1 = sequence s" "sequenceLength s1 = sequenceLength s" and
    d: "xs = xs' \<and> gameState s1 = USER_INPUT \<and> userInputIndex s1 = userInputIndex s \<or>
        (\<exists>x. xs = x # xs' \<and> 0 \<le> x \<and> x < 4 \<and>
           (if x \<noteq> sequence s ! nat (userInputIndex s)
            then gameState s1 = GAME_OVER \<and> userInputIndex s1 = userInputIndex s \<and>
                 500 \<le> clock s1 \<and>
                 drop (length (trace s1) - 3) (trace s1) = colorEvents x (clock s1 - 500)
            else if sequenceLength s \<le> userInputIndex s + 1
            then gameState s1 = PLAY_SEQUENCE \<and> userInputIndex s1 = userInputIndex s + 1
            else gameState s1 = USER_INPUT \<and> userInputIndex s1 = userInputIndex s + 1))"
    by blast
  from d show ?case
  proof (elim disjE exE conjE)
    assume a: "xs = xs'" "gameState s1 = USER_INPUT" "userInputIndex s1 = userInputIndex s"
    have "gameState s' = GAME_OVER \<and> length xs' = Suc k \<and>
         userInputIndex s' = userInputIndex s1 + int k \<and>
         sequence s' = sequence s1 \<and> sequenceLength s' = sequenceLength s1 \<and>
         500 \<le> clock s' \<and>
         drop (length (trace s') - 3) (trace s') = colorEvents (xs' ! k) (clock s' - 500)"
      using Cons.prems(4-7) a fr by (intro Cons.IH[OF r i1 a(2)]) simp_all
    with a fr show ?thesis by simp
  next
    fix x
    assume x: "xs = x # xs'" "0 \<le> x" "x < 4" and
      c: "if x \<noteq> sequence s ! nat (userInputIndex s)
            then gameState s1 = GAME_OVER \<and> userInputIndex s1 = userInputIndex s \<and>
                 500 \<le> clock s1 \<and>
                 drop (length (trace s1) - 3) (trace s1) = colorEvents x (clock s1 - 500)
            else if sequenceLength s \<le> userInputIndex s + 1
            then gameState s1 = PLAY_SEQUENCE \<and> userInputIndex s1 = userInputIndex s + 1
            else gameState s1 = USER_INPUT \<and> userInputIndex s1 = userInputIndex s + 1"
    show ?thesis
    proof (cases k)
      case 0
      with Cons.prems(7) x(1) have ne: "x \<noteq> sequence s ! nat (userInputIndex s)" by simp
      with c have g: "gameState s1 = GAME_OVER" "userInputIndex s1 = userInputIndex s"
        "500 \<le> clock s1"
        "drop (length (trace s1) - 3) (trace s1) = colorEvents x (clock s1 - 500)"
        by simp_all
      from g(1) r have "xs' = []" "s' = s1" by (simp_all add: userInputRun_left)
      with g fr x(1) 0 show ?thesis by simp
    next
      case (Suc k')
      with Cons.prems(6) x(1) have eq: "x = sequence s ! nat (userInputIndex s)"
        by (metis add.right_neutral nth_Cons_0 zero_less_Suc)
      from Suc Cons.prems(5) have "\<not> sequenceLength s \<le> userInputIndex s + 1" by simp
      with c eq have g: "gameState s1 = USER_INPUT" "userInputIndex s1 = userInputIndex s + 1"
        by simp_all
      have n: "nat (userInputIndex s1) = Suc (nat (userInputIndex s))"
        using g(2) j0 by (simp add: nat_add_distrib)
      have p4: "k' < length xs'" using Cons.prems(4) Suc x(1) by simp
      have p5: "int k' + userInputIndex s1 < sequenceLength s1"
        using Cons.prems(5) Suc g(2) fr by simp
      have p6: "\<forall>i<k'. xs' ! i = sequence s1 ! (nat (userInputIndex s1) + i)"
      proof (intro allI impI)
        fix i assume "i < k'"
        then have "Suc i < k" using Suc by simp
        with Cons.prems(6) have "xs ! Suc i = sequence s ! (nat (userInputIndex s) + Suc i)"
          by blast
        then show "xs' ! i = sequence s1 ! (nat (userInputIndex s1) + i)"
          using x(1) n fr by simp
      qed
      have p7: "xs' ! k' \<noteq> sequence s1 ! (nat (userInputIndex s1) + k')"
        using Cons.prems(7) Suc x(1) n fr by simp
      from Cons.IH[OF r i1 g(1) p4 p5 p6 p7] g fr x(1) Suc show ?thesis by simp
    qed
  qed
qed

lemma userInputRun_match:
  assumes "userInputRun h gaps s = Inr (xs, s')" "inv s" "gameState s = USER_INPUT"
    "\<forall>i<length xs. xs ! i = sequence s ! (nat (userInputIndex s) + i)"
  shows "sequence s' = sequence s \<and> sequenceLength s' = sequenceLength s \<and>
         userInputIndex s' = userInputIndex s + int (length xs) \<and>
         userInputIndex s' \<le> sequenceLength s \<and>
         gameState s' = (if userInputIndex s' < sequenceLength s then USER_INPUT
                         else PLAY_SEQUENCE)"
  using assms
proof (induction gaps arbitrary: s xs)
  case Nil
  then show ?case by (simp add: inv_def)
next
  case (Cons gap gaps)
  have j0: "0 \<le> userInputIndex s" "userInputIndex s < sequenceLength s"
    using Cons.prems(2,3) by (simp_all add: inv_def)
  from userInputRun_step[OF Cons.prems(2,3,1)] obtain s1 xs' where
    i1: "inv s1" and r: "userInputRun h gaps s1 = Inr (xs', s')" and
    fr: "sequence s1 = sequence s" "sequenceLength s1 = sequenceLength s" and
    d: "xs = xs' \<and> gameState s1 = USER_INPUT \<and> userInputIndex s1 = userInputIndex s \<or>
        (\<exists>x. xs = x # xs' \<and> 0 \<le> x \<and> x < 4 \<and>
           (if x \<noteq> sequence s ! nat (userInputIndex s)
            then gameState s1 = GAME_OVER \<and> userInputIndex s1 = userInputIndex s \<and>
                 500 \<le> clock s1 \<and>
                 drop (length (trace s1) - 3) (trace s1) = colorEvents x (clock s1 - 500)
            else if sequenceLength s \<le> userInputIndex s + 1
            then gameState s1 = PLAY_SEQUENCE \<and> userInputIndex s1 = userInputIndex s + 1
            else gameState s1 = USER_INPUT \<and> userInputIndex s1 = userInputIndex s + 1))"
    by blast
  from d show ?case
  proof (elim disjE exE conjE)
    assume a: "xs = xs'" "gameState s1 = USER_INPUT" "userInputIndex s1 = userInputIndex s"
    have "sequence s' = sequence s1 \<and> sequenceLength s' = sequenceLength s1 \<and>
         userInputIndex s' = userInputIndex s1 + int (length xs') \<and>
         userInputIndex s' \<le> sequenceLength s1 \<and>
         gameState s' = (if userInputIndex s' < sequenceLength s1 then USER_INPUT
                         else PLAY_SEQUENCE)"
      using Cons.prems(4) a fr by (intro Cons.IH[OF r i1 a(2)]) simp
    with a fr show ?thesis by simp
  next
    fix x
    assume x: "xs = x # xs'" "0 \<le> x" "x < 4" and
      c: "if x \<noteq> sequence s ! nat (userInputIndex s)
            then gameState s1 = GAME_OVER \<and> userInputIndex s1 = userInputIndex s \<and>
                 500 \<le> clock s1 \<and>
                 drop (length (trace s1) - 3) (trace s1) = colorEvents x (clock s1 - 500)
            else if sequenceLength s \<le> userInputIndex s + 1
            then gameState s1 = PLAY_SEQUENCE \<and> userInputIndex s1 = userInputIndex s + 1
            else gameState s1 = USER_INPUT \<and> userInputIndex s1 = userInputIndex s + 1"
    from Cons.prems(4) x(1) have eq: "x = sequence s ! nat (userInputIndex s)"
      by (metis add.right_neutral length_Cons nth_Cons_0 zero_less_Suc)
    show ?thesis
    proof (cases "sequenceLength s \<le> userInputIndex s + 1")
      case True
      with c eq have g: "gameState s1 = PLAY_SEQUENCE" "userInputIndex s1 = userInputIndex s + 1"
        by simp_all
      from g(1) r have "xs' = []" "s' = s1" by (simp_all add: userInputRun_left)
      with g fr x(1) True j0 show ?thesis by simp
    next
      case False
      with c eq have g: "gameState s1 = USER_INPUT" "userInputIndex s1 = userInputIndex s + 1"
        by simp_all
      have n: "nat (userInputIndex s1) = Suc (nat (userInputIndex s))"
        using g(2) j0 by (simp add: nat_add_distrib)
      have p4: "\<forall>i<length xs'. xs' ! i = sequence s1 ! (nat (userInputIndex s1) + i)"
      proof (intro allI impI)
        fix i assume "i < length xs'"
        then have "Suc i < length xs" using x(1) by simp
        with Cons.prems(4) have "xs ! Suc i = sequence s ! (nat (userInputIndex s) + Suc i)"
          by blast
        then show "xs' ! i = sequence s1 ! (nat (userInputIndex s1) + i)"
          using x(1) n fr by simp
      qed
      from Cons.IH[OF r i1 g(1) p4] g fr x(1) show ?thesis by simp
    qed
  qed
qed

subsection \<open>C2: the first wrong input\<close>

text \<open>
  Claim C2. Take a stay in \<open>USER_INPUT\<close> that begins with the cursor at 0, and let \<open>xs\<close> be
  the inputs that \<open>readButton\<close> accepts during it. If input \<open>k\<close> is the first that differs
  from the sequence at its position (\<open>k\<close> below \<open>sequenceLength\<close>), the stay ends in
  \<open>GAME_OVER\<close> with that input: \<open>xs\<close> has exactly \<open>k + 1\<close> elements, so nothing pressed
  later is read, whatever the buttons do afterwards. The cursor stands at \<open>k\<close>, the
  sequence is untouched, and the last three events of the trace are the LED and tone
  feedback of the wrong input, which ended at the moment the state changed.
\<close>

theorem mismatch_ends_round:
  assumes "inv s" "gameState s = USER_INPUT" "userInputIndex s = 0"
    and "userInputRun h gaps s = Inr (xs, s')"
    and "k < length xs" "int k < sequenceLength s"
    and "\<forall>i<k. xs ! i = sequence s ! i" "xs ! k \<noteq> sequence s ! k"
  shows "gameState s' = GAME_OVER \<and> length xs = Suc k \<and> userInputIndex s' = int k \<and>
         sequence s' = sequence s \<and> sequenceLength s' = sequenceLength s \<and>
         500 \<le> clock s' \<and>
         drop (length (trace s') - 3) (trace s') = colorEvents (xs ! k) (clock s' - 500)"
  using userInputRun_mismatch[OF assms(4,1,2,5), of ] assms(3,6,7,8) by simp

lemma inv_twoState: "inv twoState"
  by (simp add: inv_def twoState_def boot_def MAX_SEQUENCE_def)

lemma userInputRun_slip:
  "userInputRun slipHw [300, 300, 0, 500] twoState = Inr ([1, 0], slipped)"
  by (simp add: run_defs accepted_def twoState_def slipped_def boot_def slipHw_def)

theorem mismatch_ends_round_witness:
  "inv twoState \<and> gameState twoState = USER_INPUT \<and> userInputIndex twoState = 0 \<and>
   userInputRun slipHw [300, 300, 0, 500] twoState = Inr ([1, 0], slipped) \<and>
   sequence twoState ! 0 = 1 \<and> sequence twoState ! 1 = 3 \<and> sequenceLength twoState = 2 \<and>
   gameState slipped = GAME_OVER \<and> userInputIndex slipped = 1 \<and>
   drop (length (trace slipped) - 3) (trace slipped) = colorEvents 0 6300 \<and>
   pinLow slipHw 7000 (BUTTON_PINS ! 3)"
proof -
  have v: "gameState twoState = USER_INPUT" "userInputIndex twoState = 0"
    "sequence twoState ! 0 = 1" "sequence twoState ! 1 = 3" "sequenceLength twoState = 2"
    by (simp_all add: twoState_def boot_def)
  have k: "(1::nat) < length [1, 0 :: int]" "int 1 < sequenceLength twoState"
    "\<forall>i<1. [1, 0] ! i = sequence twoState ! i" "[1, 0] ! 1 \<noteq> sequence twoState ! 1"
    using v by simp_all
  from mismatch_ends_round[OF inv_twoState v(1,2) userInputRun_slip k]
  have "gameState slipped = GAME_OVER \<and> userInputIndex slipped = int 1 \<and>
        drop (length (trace slipped) - 3) (trace slipped)
          = colorEvents ([1, 0] ! 1) (clock slipped - 500)"
    by blast
  moreover have "clock slipped - 500 = 6300" by (simp add: slipped_def)
  moreover have "pinLow slipHw 7000 (BUTTON_PINS ! 3)"
    by (simp add: slipHw_def BUTTON_PINS_def)
  ultimately show ?thesis using inv_twoState v userInputRun_slip by simp
qed

subsection \<open>C5: the debounce interval\<close>









subsection \<open>The full sequence can be reached\<close>

text \<open>
  A player who makes no mistake gets to every length: from a reachable state in
  \<open>USER_INPUT\<close> the right button, pressed once the debounce interval has passed and
  released within 10 ms, moves the cursor on, and so a state in \<open>PLAY_SEQUENCE\<close> with
  \<open>MAX_SEQUENCE\<close> elements is reachable.
\<close>

lemma BUTTON_PINS_distinct:
  "i < 4 \<Longrightarrow> j < i \<Longrightarrow> BUTTON_PINS ! j \<noteq> BUTTON_PINS ! i"
proof -
  assume a: "i < 4" "j < i"
  then have "i = 1 \<and> j = 0 \<or> i = 2 \<and> (j = 0 \<or> j = 1) \<or> i = 3 \<and> (j = 0 \<or> j = 1 \<or> j = 2)"
    by arith
  then show ?thesis by (auto simp: BUTTON_PINS_def)
qed

lemma right_press:
  assumes "inv s" "gameState s = USER_INPUT"
  shows "\<exists>h gap s'. tick h gap s = Inr s' \<and> sequenceLength s' = sequenceLength s \<and>
           userInputIndex s' = userInputIndex s + 1 \<and>
           gameState s' = (if sequenceLength s \<le> userInputIndex s + 1 then PLAY_SEQUENCE
                           else USER_INPUT)"
proof -
  let ?c = "sequence s ! nat (userInputIndex s)"
  let ?gap = "unat (200 + lastButtonPress s - millis s)"
  let ?T = "clock s + ?gap"
  let ?h = "\<lparr> pinLow = (\<lambda>t pin. t = ?T \<and> pin = BUTTON_PINS ! nat ?c), rawRandom = (\<lambda>k. 0) \<rparr>"
  let ?u = "s\<lparr>clock := ?T\<rparr>"
  have j: "0 \<le> userInputIndex s" "userInputIndex s < sequenceLength s"
    "nat (sequenceLength s) \<le> length (sequence s)"
    using assms by (auto simp: inv_def MAX_SEQUENCE_def)
  then have "nat (userInputIndex s) < length (take (nat (sequenceLength s)) (sequence s))"
    by simp
  then have "take (nat (sequenceLength s)) (sequence s) ! nat (userInputIndex s)
               \<in> set (take (nat (sequenceLength s)) (sequence s))"
    by (rule nth_mem)
  then have "?c \<in> set (take (nat (sequenceLength s)) (sequence s))"
    using j by simp
  with assms(1) have c: "0 \<le> ?c" "?c < 4" by (auto simp: inv_def list_all_iff)
  have "millis ?u - lastButtonPress ?u = 200"
    by (simp add: millis_def)
  then have d: "\<not> millis ?u - lastButtonPress ?u < debounceDelay"
    by (simp add: debounceDelay_def)
  have lo: "pinLow ?h (clock ?u) (BUTTON_PINS ! nat ?c)" by simp
  have others: "\<forall>j<nat ?c. \<not> pinLow ?h (clock ?u) (BUTTON_PINS ! j)"
    using c BUTTON_PINS_distinct[of "nat ?c"] by simp
  have rel: "\<not> pinLow ?h (clock ?u + 10 * 1) (BUTTON_PINS ! nat ?c)" by simp
  have "nat ?c < 4" using c by simp
  from readButton_returns[OF d this lo others rel] c obtain u' where
    rb: "readButton ?h ?u = Inr (?c, u')" by auto
  from readButton_result[OF rb] c obtain t where
    u': "u' = ?u\<lparr>lastButtonPress := millis ?u, clock := t\<rparr>" by auto
  have iu: "inv u'" "gameState u' = USER_INPUT" using assms by (simp_all add: u' inv_def)
  have f: "sequence u' = sequence s" "userInputIndex u' = userInputIndex s"
    "sequenceLength u' = sequenceLength s" by (simp_all add: u')
  have ne: "?c \<noteq> - 1" using c by simp
  let ?r = "let s1 = u'\<lparr>trace := trace u' @ colorEvents ?c (clock u'),
                                     clock := clock u' + 500\<rparr> in
          if ?c \<noteq> sequence u' ! nat (userInputIndex u') then s1\<lparr>gameState := GAME_OVER\<rparr>
          else if sequenceLength u' \<le> userInputIndex u' + 1
          then s1\<lparr>userInputIndex := userInputIndex u' + 1, clock := clock u' + 1500,
                   gameState := PLAY_SEQUENCE\<rparr>
          else s1\<lparr>userInputIndex := userInputIndex u' + 1\<rparr>"
  have "tick ?h ?gap s = handleInput ?c u'"
    using assms(2) rb ne by (simp add: tick_def loop_def)
  also have "\<dots> = Inr ?r"
    using iu c by (rule handleInput_result)
  finally have t: "tick ?h ?gap s = Inr ?r" .
  have "sequenceLength ?r = sequenceLength s \<and> userInputIndex ?r = userInputIndex s + 1 \<and>
        gameState ?r = (if sequenceLength s \<le> userInputIndex s + 1 then PLAY_SEQUENCE
                        else USER_INPUT)"
    by (simp add: Let_def f iu)
  with t show ?thesis by blast
qed

lemma finish_round:
  assumes "reachable s" "gameState s = USER_INPUT"
  shows "\<exists>s'. reachable s' \<and> gameState s' = PLAY_SEQUENCE \<and>
              sequenceLength s' = sequenceLength s"
  using assms
proof (induction "nat (sequenceLength s - userInputIndex s)" arbitrary: s rule: less_induct)
  case less
  have i: "inv s" using less.prems(1) by (rule reachable_inv)
  from right_press[OF i less.prems(2)] obtain h gap s' where
    t: "tick h gap s = Inr s'" and
    f: "sequenceLength s' = sequenceLength s" "userInputIndex s' = userInputIndex s + 1"
    "gameState s' = (if sequenceLength s \<le> userInputIndex s + 1 then PLAY_SEQUENCE
                     else USER_INPUT)"
    by blast
  have r: "reachable s'" using less.prems(1) t by (rule reachable.tick)
  show ?case
  proof (cases "sequenceLength s \<le> userInputIndex s + 1")
    case True
    with f r show ?thesis by auto
  next
    case False
    with f have g: "gameState s' = USER_INPUT" by simp
    have "nat (sequenceLength s' - userInputIndex s') < nat (sequenceLength s - userInputIndex s)"
      using False f by simp
    from less.hyps[OF this r g] f show ?thesis by simp
  qed
qed

lemma next_round:
  assumes "reachable s" "gameState s = PLAY_SEQUENCE" "sequenceLength s < MAX_SEQUENCE"
  shows "\<exists>s'. reachable s' \<and> gameState s' = PLAY_SEQUENCE \<and>
              sequenceLength s' = sequenceLength s + 1"
proof -
  let ?s = "s\<lparr>clock := clock s + 0\<rparr>"
  have i: "inv ?s" using assms(1) by (simp add: reachable_inv)
  have "arduino_random idleHw (draws ?s + 0) 0 4 \<noteq> 2"
    by (simp add: arduino_random_def idleHw_def)
  then obtain r where "drawColor idleHw (sequenceLength ?s) (draws ?s) = Some r"
    using drawColor_returns by blast
  then obtain a1 where a1: "addToSequence idleHw ?s = Inr a1"
    using assms(3) i
    by (cases r) (auto simp: addToSequence_def arrayWrite_def inv_def MAX_SEQUENCE_def)
  from addToSequence_grow[OF a1] assms(3)
  have l: "sequenceLength a1 = sequenceLength s + 1" by auto
  from inv_addToSequence[OF i a1] assms(2) have "inv a1" by simp
  from playSequence_result[OF this] obtain s2 where
    p: "playSequence a1 = Inr s2" "sequenceLength s2 = sequenceLength a1" by simp
  let ?s0 = "s2\<lparr>userInputIndex := 0, lastButtonPress := millis s2, gameState := USER_INPUT\<rparr>"
  have "tick idleHw 0 s = Inr ?s0" using assms(2) a1 p by (simp add: tick_def loop_def)
  with assms(1) have "reachable ?s0" by (rule reachable.tick)
  from finish_round[OF this] p l show ?thesis by simp
qed

lemma every_length_reachable:
  "n \<le> 100 \<Longrightarrow> \<exists>s. reachable s \<and> gameState s = PLAY_SEQUENCE \<and> sequenceLength s = int n"
proof (induction n)
  case 0
  from reachable_started run_started show ?case by auto
next
  case (Suc n)
  then obtain s where s: "reachable s" "gameState s = PLAY_SEQUENCE" "sequenceLength s = int n"
    by auto
  then have "sequenceLength s < MAX_SEQUENCE" using Suc.prems by (simp add: MAX_SEQUENCE_def)
  from next_round[OF s(1,2) this] s(3) show ?case by auto
qed

lemma full_sequence_reachable:
  "\<exists>s. reachable s \<and> gameState s = PLAY_SEQUENCE \<and> sequenceLength s = MAX_SEQUENCE"
  using every_length_reachable[of 100] by (simp add: MAX_SEQUENCE_def)

subsection \<open>C1: a round played without a mistake\<close>

text \<open>
  Claim C1 as stated does not hold once the sequence is full, which a round without a
  mistake does reach: the \<open>PLAY_SEQUENCE\<close> iteration entered with 100 elements hands over
  to \<open>USER_INPUT\<close> with 100 elements still.
\<close>

theorem full_sequence_does_not_grow:
  "gameState capState = PLAY_SEQUENCE \<and> sequenceLength capState = 100 \<and>
   tick idleHw 0 capState = Inr capListening \<and> gameState capListening = USER_INPUT \<and>
   sequenceLength capListening = 100 \<and>
   sequenceLength capListening \<noteq> sequenceLength capState + 1"
proof -
  have v: "gameState capState = PLAY_SEQUENCE" "sequenceLength capState = 100"
    "sequence capState = replicate 100 1" "clock capState = 5000" "trace capState = []"
    by (simp_all add: capState_def boot_def)
  have a: "addToSequence idleHw capState = Inr capState"
    using v by (simp add: addToSequence_cap MAX_SEQUENCE_def)
  have p: "playSequence capState =
     Inr (capState\<lparr>trace := playbackEvents (replicate 100 1) 5000, clock := 85000\<rparr>)"
    using playSequence_result[OF inv_capState] by (simp add: v)
  have c: "capState\<lparr>clock := 5000\<rparr> = capState" by (simp add: capState_def)
  have "tick idleHw 0 capState = Inr capListening"
    by (simp add: tick_def loop_def v c a p capListening_def millis_def)
  then show ?thesis using v by (simp add: capListening_def)
qed

text \<open>
  Claim C1, amended. One cycle of a round in which every accepted input is right: the
  \<open>PLAY_SEQUENCE\<close> iteration hands over to \<open>USER_INPUT\<close> with the cursor at 0 and the
  sequence one element longer than before, its old elements kept, unless it already had
  \<open>MAX_SEQUENCE\<close> elements, in which case it is unchanged. During the stay in
  \<open>USER_INPUT\<close> that follows, as long as every accepted input equals the element of the
  sequence at its position, the cursor counts the inputs accepted and never passes
  \<open>sequenceLength\<close>; the state is still \<open>USER_INPUT\<close> while the cursor is below
  \<open>sequenceLength\<close>, and it is \<open>PLAY_SEQUENCE\<close>, never \<open>GAME_OVER\<close>, once the cursor has
  reached it. The sequence is as it was played, and the state is one from which the next
  cycle runs in the same way.
\<close>

theorem perfect_round:
  assumes "inv s" "gameState s = PLAY_SEQUENCE"
    and "tick h gap s = Inr s0"
    and "userInputRun h gaps s0 = Inr (xs, s1)"
    and "\<forall>i<length xs. xs ! i = sequence s0 ! i"
  shows "gameState s0 = USER_INPUT \<and> userInputIndex s0 = 0 \<and>
         sequenceLength s0 =
           (if sequenceLength s < MAX_SEQUENCE then sequenceLength s + 1 else sequenceLength s) \<and>
         take (nat (sequenceLength s)) (sequence s0) = take (nat (sequenceLength s)) (sequence s) \<and>
         int (length xs) \<le> sequenceLength s0 \<and> userInputIndex s1 = int (length xs) \<and>
         gameState s1 =
           (if int (length xs) < sequenceLength s0 then USER_INPUT else PLAY_SEQUENCE) \<and>
         sequence s1 = sequence s0 \<and> sequenceLength s1 = sequenceLength s0 \<and> inv s1"
proof -
  let ?s = "s\<lparr>clock := clock s + gap\<rparr>"
  have i: "inv ?s" using assms(1) by simp
  from tick_PLAY_SEQUENCE[OF assms(1,2,3)] obtain a1 where
    g0: "gameState s0 = USER_INPUT" "userInputIndex s0 = 0" and
    a1: "addToSequence h ?s = Inr a1" "sequence s0 = sequence a1"
    "sequenceLength s0 = sequenceLength a1"
    by blast
  have grow: "sequenceLength a1 =
      (if sequenceLength s < MAX_SEQUENCE then sequenceLength s + 1 else sequenceLength s) \<and>
      take (nat (sequenceLength s)) (sequence a1) = take (nat (sequenceLength s)) (sequence s)"
  proof (cases "sequenceLength s < MAX_SEQUENCE")
    case True
    then have "sequenceLength ?s < MAX_SEQUENCE" by simp
    from addToSequence_grow[OF a1(1) this] True show ?thesis by auto
  next
    case False
    then have "addToSequence h ?s = Inr ?s" by (simp add: addToSequence_cap)
    with a1(1) False show ?thesis by auto
  qed
  have i0: "inv s0" using assms(1,3) by (rule inv_tick)
  have m: "\<forall>i<length xs. xs ! i = sequence s0 ! (nat (userInputIndex s0) + i)"
    using assms(5) g0 by simp
  from userInputRun_match[OF assms(4) i0 g0(1) m] g0(2)
  have r: "sequence s1 = sequence s0" "sequenceLength s1 = sequenceLength s0"
    "userInputIndex s1 = int (length xs)" "int (length xs) \<le> sequenceLength s0"
    "gameState s1 = (if int (length xs) < sequenceLength s0 then USER_INPUT else PLAY_SEQUENCE)"
    by simp_all
  have "inv s1" using i0 r by (simp add: inv_def)
  with g0 a1 grow r show ?thesis by simp
qed

lemma inv_secondRound: "inv secondRound"
  by (simp add: inv_def secondRound_def afterFirst_def boot_def MAX_SEQUENCE_def
      take_Suc_conv_app_nth)

lemma tick_secondRound: "tick roundHw 0 secondRound = Inr roundListening"
  by (simp add: run_defs secondRound_def roundListening_def afterFirst_def boot_def roundHw_def)

lemma userInputRun_half: "userInputRun roundHw [300] roundListening = Inr ([1], roundHalf)"
  by (simp add: run_defs accepted_def secondRound_def roundListening_def roundHalf_def
      afterFirst_def boot_def roundHw_def)

lemma userInputRun_done:
  "userInputRun roundHw [300, 400] roundListening = Inr ([1, 3], roundDone)"
  by (simp add: run_defs accepted_def secondRound_def roundListening_def roundHalf_def
      roundDone_def afterFirst_def boot_def roundHw_def)

theorem perfect_round_witness:
  "inv secondRound \<and> gameState secondRound = PLAY_SEQUENCE \<and> sequenceLength secondRound = 1 \<and>
   tick roundHw 0 secondRound = Inr roundListening \<and>
   sequenceLength roundListening = 2 \<and>
   sequence roundListening ! 0 = 1 \<and> sequence roundListening ! 1 = 3 \<and>
   userInputRun roundHw [300] roundListening = Inr ([1], roundHalf) \<and>
   gameState roundHalf = USER_INPUT \<and> userInputIndex roundHalf = 1 \<and>
   userInputRun roundHw [300, 400] roundListening = Inr ([1, 3], roundDone) \<and>
   gameState roundDone = PLAY_SEQUENCE \<and> userInputIndex roundDone = 2 \<and>
   sequenceLength roundDone = 2 \<and> inv roundDone"
proof -
  have v: "gameState secondRound = PLAY_SEQUENCE" "sequenceLength secondRound = 1"
    by (simp_all add: secondRound_def afterFirst_def)
  have q: "sequence roundListening ! 0 = 1" "sequence roundListening ! 1 = 3"
    by (simp_all add: roundListening_def secondRound_def afterFirst_def boot_def)
  have m1: "\<forall>i<length [1::int]. [1] ! i = sequence roundListening ! i"
    using q by simp
  have m2: "\<forall>i<length [1, 3::int]. [1, 3] ! i = sequence roundListening ! i"
    using q by (simp add: less_Suc_eq)
  from perfect_round[OF inv_secondRound v(1) tick_secondRound userInputRun_half m1]
  have c1: "sequenceLength roundListening = 2 \<and> userInputIndex roundHalf = 1 \<and>
            gameState roundHalf = USER_INPUT"
    using v by (simp add: MAX_SEQUENCE_def)
  from perfect_round[OF inv_secondRound v(1) tick_secondRound userInputRun_done m2]
  have c2: "userInputIndex roundDone = 2 \<and> gameState roundDone = PLAY_SEQUENCE \<and>
            sequenceLength roundDone = 2 \<and> inv roundDone"
    using v by (simp add: MAX_SEQUENCE_def)
  from inv_secondRound v tick_secondRound q userInputRun_half userInputRun_done c1 c2
  show ?thesis by simp
qed

subsection \<open>The periodic toggle\<close>

lemma sinceToggle_advance:
  "sinceToggle (s\<lparr>clock := clock s + g\<rparr>) = (sinceToggle s + g) mod 2 ^ 32"
proof -
  let ?d = "millis s - previousMillis s"
  have e: "millis (s\<lparr>clock := clock s + g\<rparr>) - previousMillis s = ?d + word_of_nat g"
    by (simp add: millis_def)
  have "sinceToggle (s\<lparr>clock := clock s + g\<rparr>)
        = unat (millis (s\<lparr>clock := clock s + g\<rparr>) - previousMillis s)"
    by (simp add: sinceToggle_def)
  also have "\<dots> = unat (?d + word_of_nat g)" by (simp only: e)
  also have "\<dots> = (unat ?d + unat (word_of_nat g :: 32 word)) mod 2 ^ 32"
    using unat_word_ariths(1)[of ?d "word_of_nat g"] by simp
  also have "\<dots> = (sinceToggle s + g) mod 2 ^ 32"
    by (simp add: sinceToggle_def unat_of_nat mod_add_right_eq)
  finally show ?thesis .
qed

lemma blink_cases:
  "(300 \<le> sinceToggle s \<longrightarrow>
      blink s = s\<lparr>previousMillis := millis s, ledState := \<not> ledState s,
                  trace := trace s @ [(clock s, DigitalWrite (LED_PINS ! 2) (\<not> ledState s))]\<rparr>) \<and>
   (sinceToggle s < 300 \<longrightarrow> blink s = s)"
  by (auto simp: blink_def sinceToggle_def prim_defs word_le_nat_alt)

lemma tick_idle:
  assumes "gameState s = WAIT_FOR_START" "\<not> pinLow h (clock s + g) (BUTTON_PINS ! 2)"
  shows "tick h g s = Inr (blink (s\<lparr>clock := clock s + g\<rparr>))"
  using assms by (simp add: tick_def loop_def waitForStartButton_def Let_def)

lemma toggles_append:
  "trace s' = trace s @ evs \<Longrightarrow> toggles s s' = length (filter (writesPin (LED_PINS ! 2)) evs)"
  by (simp add: toggles_def)

lemma blink_run:
  assumes "gameState s = WAIT_FOR_START" "\<forall>t. \<not> pinLow h t (BUTTON_PINS ! 2)"
  shows "\<exists>s' evs. run h gaps s = Inr s' \<and> gameState s' = WAIT_FOR_START \<and>
           clock s' = clock s + sum_list gaps \<and> trace s' = trace s @ evs \<and>
           300 * length (filter (writesPin (LED_PINS ! 2)) evs) + sinceToggle s'
             \<le> sinceToggle s + sum_list gaps \<and>
           (sinceToggle s < 300 \<and> (\<forall>g\<in>set gaps. g \<le> G) \<and> G + 300 \<le> 2 ^ 32 \<longrightarrow>
              sinceToggle s' < 300 \<and>
              sinceToggle s + sum_list gaps
                \<le> sinceToggle s' + (299 + G) * length (filter (writesPin (LED_PINS ! 2)) evs))"
  using assms(1)
proof (induction gaps arbitrary: s)
  case Nil
  then show ?case by simp
next
  case (Cons g gaps)
  let ?a = "s\<lparr>clock := clock s + g\<rparr>"
  let ?s1 = "blink ?a"
  let ?p = "writesPin (LED_PINS ! 2)"
  have t: "tick h g s = Inr ?s1" using Cons.prems assms(2) by (simp add: tick_idle)
  have g1: "gameState ?s1 = WAIT_FOR_START" using Cons.prems by simp
  have adv: "sinceToggle ?a = (sinceToggle s + g) mod 2 ^ 32" by (rule sinceToggle_advance)
  obtain e1 where e1: "trace ?s1 = trace s @ e1" and
    u1: "300 * length (filter ?p e1) + sinceToggle ?s1 \<le> sinceToggle s + g" and
    l1: "sinceToggle s < 300 \<and> g \<le> G \<and> G + 300 \<le> 2 ^ 32 \<longrightarrow>
           sinceToggle ?s1 < 300 \<and>
           sinceToggle s + g \<le> sinceToggle ?s1 + (299 + G) * length (filter ?p e1)"
  proof (cases "300 \<le> sinceToggle ?a")
    case True
    with blink_cases[of ?a] have b: "?s1 = ?a\<lparr>previousMillis := millis ?a,
        ledState := \<not> ledState ?a,
        trace := trace ?a @ [(clock ?a, DigitalWrite (LED_PINS ! 2) (\<not> ledState ?a))]\<rparr>"
      by simp
    have z: "sinceToggle ?s1 = 0" by (subst b) (simp add: sinceToggle_def millis_def)
    have tr: "trace ?s1 = trace s @ [(clock ?a, DigitalWrite (LED_PINS ! 2) (\<not> ledState ?a))]"
      by (subst b) simp
    have le: "(sinceToggle s + g) mod 2 ^ 32 \<le> sinceToggle s + g" by simp
    have "300 * length (filter ?p [(clock ?a, DigitalWrite (LED_PINS ! 2) (\<not> ledState ?a))])
            + sinceToggle ?s1 \<le> sinceToggle s + g"
      using True adv le z by simp
    moreover have "sinceToggle s < 300 \<and> g \<le> G \<and> G + 300 \<le> 2 ^ 32 \<longrightarrow>
           sinceToggle ?s1 < 300 \<and>
           sinceToggle s + g \<le> sinceToggle ?s1 + (299 + G) *
             length (filter ?p [(clock ?a, DigitalWrite (LED_PINS ! 2) (\<not> ledState ?a))])"
      using z by simp
    ultimately show ?thesis using that tr by blast
  next
    case False
    with blink_cases[of ?a] have b: "?s1 = ?a" by simp
    have "sinceToggle s < 300 \<and> g \<le> G \<and> G + 300 \<le> 2 ^ 32 \<longrightarrow>
           sinceToggle ?s1 < 300 \<and>
           sinceToggle s + g \<le> sinceToggle ?s1 + (299 + G) * length (filter ?p [])"
    proof
      assume a: "sinceToggle s < 300 \<and> g \<le> G \<and> G + 300 \<le> 2 ^ 32"
      then have "sinceToggle s + g < 2 ^ 32" by simp
      then have "sinceToggle ?a = sinceToggle s + g" using adv by simp
      with False b show "sinceToggle ?s1 < 300 \<and>
           sinceToggle s + g \<le> sinceToggle ?s1 + (299 + G) * length (filter ?p [])"
        by simp
    qed
    moreover have "300 * length (filter ?p []) + sinceToggle ?s1 \<le> sinceToggle s + g"
      using b adv by simp
    moreover have "trace ?s1 = trace s @ []" using b by simp
    ultimately show ?thesis using that by blast
  qed
  from Cons.IH[OF g1] obtain s' evs where
    r: "run h gaps ?s1 = Inr s'" and g': "gameState s' = WAIT_FOR_START" and
    c: "clock s' = clock ?s1 + sum_list gaps" and tr: "trace s' = trace ?s1 @ evs" and
    u: "300 * length (filter ?p evs) + sinceToggle s' \<le> sinceToggle ?s1 + sum_list gaps" and
    l: "sinceToggle ?s1 < 300 \<and> (\<forall>g\<in>set gaps. g \<le> G) \<and> G + 300 \<le> 2 ^ 32 \<longrightarrow>
              sinceToggle s' < 300 \<and>
              sinceToggle ?s1 + sum_list gaps
                \<le> sinceToggle s' + (299 + G) * length (filter ?p evs)"
    by blast
  have r': "run h (g # gaps) s = Inr s'" using t r by simp
  have c': "clock s' = clock s + sum_list (g # gaps)" using c by simp
  have tr': "trace s' = trace s @ (e1 @ evs)" using tr e1 by simp
  have u': "300 * length (filter ?p (e1 @ evs)) + sinceToggle s'
              \<le> sinceToggle s + sum_list (g # gaps)"
    using u u1 by (simp add: algebra_simps)
  have l': "sinceToggle s < 300 \<and> (\<forall>g\<in>set (g # gaps). g \<le> G) \<and> G + 300 \<le> 2 ^ 32 \<longrightarrow>
              sinceToggle s' < 300 \<and>
              sinceToggle s + sum_list (g # gaps)
                \<le> sinceToggle s' + (299 + G) * length (filter ?p (e1 @ evs))"
  proof
    assume a: "sinceToggle s < 300 \<and> (\<forall>g\<in>set (g # gaps). g \<le> G) \<and> G + 300 \<le> 2 ^ 32"
    with l1 have x: "sinceToggle ?s1 < 300"
      "sinceToggle s + g \<le> sinceToggle ?s1 + (299 + G) * length (filter ?p e1)"
      by simp_all
    with l a have y: "sinceToggle s' < 300"
      "sinceToggle ?s1 + sum_list gaps \<le> sinceToggle s' + (299 + G) * length (filter ?p evs)"
      by simp_all
    from x(2) y(2) have "sinceToggle s + sum_list (g # gaps)
        \<le> sinceToggle s' + (299 + G) * length (filter ?p (e1 @ evs))"
      by (simp add: algebra_simps)
    with y(1) show "sinceToggle s' < 300 \<and>
              sinceToggle s + sum_list (g # gaps)
                \<le> sinceToggle s' + (299 + G) * length (filter ?p (e1 @ evs))"
      by simp
  qed
  from r' g' c' tr' u' l' show ?case by blast
qed

subsection \<open>C6: the blink of the start LED\<close>

text \<open>
  Claim C6 as stated does not hold for every polling schedule: polled every 1500 ms for
  15000 ms, the LED toggles 10 times, once at each poll, and not 15000 / 300 = 50 times.
\<close>

theorem slow_polling_toggles_less:
  "gameState waiting = WAIT_FOR_START \<and>
   map_sum id (toggles waiting)
     (run idleHw [1500, 1500, 1500, 1500, 1500, 1500, 1500, 1500, 1500, 1500] waiting) = Inr 10 \<and>
   sum_list [1500, 1500, 1500, 1500, 1500, 1500, 1500, 1500, 1500, 1500 :: nat] div 300 = 50"
  by (simp add: run_defs toggles_def waiting_def boot_def idleHw_def)

text \<open>
  Claim C6, amended. In \<open>WAIT_FOR_START\<close>, with the start button not pressed, each
  iteration of \<open>loop\<close> is one call of \<open>blink\<close>: the start LED toggles exactly when the
  millisecond counter is at least 300 past the stored last-toggle timestamp, and the
  timestamp is then set to the current time. So for every polling schedule the iterations
  all return in \<open>WAIT_FOR_START\<close> and the number \<open>n\<close> of toggles in a window of \<open>T\<close>
  milliseconds satisfies \<open>300 * n \<le> T + d\<close>, \<open>d\<close> being the time since the last toggle
  at the start of the window. When the window starts less than 300 ms after a toggle and
  the gaps between the ticks are at most \<open>G\<close> milliseconds, then \<open>300 * n \<le> T + 299\<close> and
  \<open>T < 300 + (299 + G) * n\<close>: the number of toggles is about \<open>T / 300\<close> when the gaps are
  small against the interval, however many ticks there are, and falls below it as the gaps
  grow.
\<close>

theorem blink_toggle_rate:
  assumes "gameState s = WAIT_FOR_START" "\<forall>t. \<not> pinLow h t (BUTTON_PINS ! 2)"
  shows "tick h g s = Inr (blink (s\<lparr>clock := clock s + g\<rparr>)) \<and>
     blink s =
       (if 300 \<le> sinceToggle s
        then s\<lparr>previousMillis := millis s, ledState := \<not> ledState s,
               trace := trace s @ [(clock s, DigitalWrite (LED_PINS ! 2) (\<not> ledState s))]\<rparr>
        else s) \<and>
     (\<exists>s'. run h gaps s = Inr s' \<and> gameState s' = WAIT_FOR_START \<and>
           clock s' = clock s + sum_list gaps \<and>
           300 * toggles s s' \<le> sum_list gaps + sinceToggle s \<and>
           (sinceToggle s < 300 \<and> (\<forall>g\<in>set gaps. g \<le> G) \<and> G + 300 \<le> 2 ^ 32 \<longrightarrow>
              300 * toggles s s' \<le> sum_list gaps + 299 \<and>
              sum_list gaps < 300 + (299 + G) * toggles s s'))"
proof -
  let ?p = "writesPin (LED_PINS ! 2)"
  have p1: "tick h g s = Inr (blink (s\<lparr>clock := clock s + g\<rparr>))"
    using assms by (simp add: tick_idle)
  have p2: "blink s =
       (if 300 \<le> sinceToggle s
        then s\<lparr>previousMillis := millis s, ledState := \<not> ledState s,
               trace := trace s @ [(clock s, DigitalWrite (LED_PINS ! 2) (\<not> ledState s))]\<rparr>
        else s)"
    using blink_cases[of s] by (cases "300 \<le> sinceToggle s") simp_all
  from blink_run[OF assms, of gaps G] obtain s' evs where
    r: "run h gaps s = Inr s'" "gameState s' = WAIT_FOR_START"
    "clock s' = clock s + sum_list gaps" and tr: "trace s' = trace s @ evs" and
    u: "300 * length (filter ?p evs) + sinceToggle s' \<le> sinceToggle s + sum_list gaps" and
    l: "sinceToggle s < 300 \<and> (\<forall>g\<in>set gaps. g \<le> G) \<and> G + 300 \<le> 2 ^ 32 \<longrightarrow>
              sinceToggle s' < 300 \<and>
              sinceToggle s + sum_list gaps \<le> sinceToggle s' + (299 + G) * length (filter ?p evs)"
    by blast
  have n: "toggles s s' = length (filter ?p evs)" using tr by (rule toggles_append)
  have u': "300 * toggles s s' \<le> sum_list gaps + sinceToggle s" using u n by simp
  have l': "sinceToggle s < 300 \<and> (\<forall>g\<in>set gaps. g \<le> G) \<and> G + 300 \<le> 2 ^ 32 \<longrightarrow>
              300 * toggles s s' \<le> sum_list gaps + 299 \<and>
              sum_list gaps < 300 + (299 + G) * toggles s s'"
  proof
    assume a: "sinceToggle s < 300 \<and> (\<forall>g\<in>set gaps. g \<le> G) \<and> G + 300 \<le> 2 ^ 32"
    with l have "sinceToggle s' < 300"
      "sinceToggle s + sum_list gaps \<le> sinceToggle s' + (299 + G) * toggles s s'"
      using n by simp_all
    with a u' show "300 * toggles s s' \<le> sum_list gaps + 299 \<and>
              sum_list gaps < 300 + (299 + G) * toggles s s'"
      by simp
  qed
  have p3: "\<exists>s'. run h gaps s = Inr s' \<and> gameState s' = WAIT_FOR_START \<and>
           clock s' = clock s + sum_list gaps \<and>
           300 * toggles s s' \<le> sum_list gaps + sinceToggle s \<and>
           (sinceToggle s < 300 \<and> (\<forall>g\<in>set gaps. g \<le> G) \<and> G + 300 \<le> 2 ^ 32 \<longrightarrow>
              300 * toggles s s' \<le> sum_list gaps + 299 \<and>
              sum_list gaps < 300 + (299 + G) * toggles s s')"
    using r u' l' by (intro exI[of _ s'] conjI)
  from p1 p2 p3 show ?thesis by (intro conjI)
qed

theorem blink_toggle_rate_witness:
  "gameState waiting = WAIT_FOR_START \<and> sinceToggle waiting = 100 \<and>
   run idleHw [100, 100, 150, 50] waiting =
     Inr (waiting\<lparr>previousMillis := 4200, ledState := True, clock := 4400,
                  trace := [(4200, DigitalWrite 5 True)]\<rparr>) \<and>
   toggles waiting (waiting\<lparr>previousMillis := 4200, ledState := True, clock := 4400,
                            trace := [(4200, DigitalWrite 5 True)]\<rparr>) = 1 \<and>
   300 * (1::nat) \<le> sum_list [100, 100, 150, 50] + 299 \<and>
   sum_list [100, 100, 150, 50] < 300 + (299 + 150) * (1::nat)"
proof -
  let ?w = "waiting\<lparr>previousMillis := 4200, ledState := True, clock := 4400,
                  trace := [(4200, DigitalWrite 5 True)]\<rparr>"
  have g: "gameState waiting = WAIT_FOR_START" by (simp add: waiting_def)
  have b: "\<forall>t. \<not> pinLow idleHw t (BUTTON_PINS ! 2)" by (simp add: idleHw_def)
  have d: "sinceToggle waiting = 100"
    by (simp add: sinceToggle_def waiting_def millis_def)
  have r: "run idleHw [100, 100, 150, 50] waiting = Inr ?w"
    by (simp add: run_defs waiting_def boot_def idleHw_def)
  have n: "toggles waiting ?w = 1"
    by (simp add: toggles_def waiting_def boot_def LED_PINS_def)
  have h: "sinceToggle waiting < 300 \<and> (\<forall>g\<in>set [100, 100, 150, 50]. g \<le> (150::nat)) \<and>
           (150::nat) + 300 \<le> 2 ^ 32"
    using d by simp
  from blink_toggle_rate[OF g b, of 0 "[100, 100, 150, 50]" 150] obtain s' where
    s': "run idleHw [100, 100, 150, 50] waiting = Inr s'" and
    c: "sinceToggle waiting < 300 \<and> (\<forall>g\<in>set [100, 100, 150, 50]. g \<le> (150::nat)) \<and>
        (150::nat) + 300 \<le> 2 ^ 32 \<longrightarrow>
        300 * toggles waiting s' \<le> sum_list [100, 100, 150, 50] + 299 \<and>
        sum_list [100, 100, 150, 50] < 300 + (299 + 150) * toggles waiting s'"
    by blast
  from s' r have "s' = ?w" by simp
  with c h have "300 * toggles waiting ?w \<le> sum_list [100, 100, 150, 50] + 299 \<and>
        sum_list [100, 100, 150, 50] < 300 + (299 + 150) * toggles waiting ?w"
    by blast
  then have "300 * (1::nat) \<le> sum_list [100, 100, 150, 50] + 299 \<and>
        sum_list [100, 100, 150, 50] < 300 + (299 + 150) * (1::nat)"
    by (simp only: n)
  with g d r n show ?thesis by blast
qed

end
